theory Spec2Isabelle
  imports Main "HOL-Library.Word" "HOL-Library.Multiset"
begin

unbundle bit_operations_syntax

section \<open>Hazard pointers: chunks, domain, snapshot and context\<close>

text \<open>
  The model is sequential: one thread runs each operation to completion. An atomic
  compare-exchange is modelled by \<open>compare_exchange\<close>: it succeeds exactly when the
  cell still holds the expected value, and on failure the expected value is refreshed.
\<close>

subsection \<open>Data\<close>

text \<open>\<^verbatim>\<open>typedef void* generic_hazptr_t\<close>: a pointer value; \<^verbatim>\<open>nullptr\<close> is 0.\<close>

type_synonym hazptr = "64 word"

text \<open>
  \<^verbatim>\<open>hazp_chunk_generic\<close>: the slots \<^verbatim>\<open>haz_ptrs[hp_count]\<close> and the reservation bitmap,
  one bit for each of the \<^verbatim>\<open>NUM_HAZP_CHUNK_BLOCKS\<close> blocks of \<^verbatim>\<open>blk_size\<close> slots.
\<close>

record hazp_chunk =
  haz_ptrs :: "hazptr list"
  bitmap :: "32 word"
  blk_size :: nat
  hp_count :: nat

definition NUM_HAZP_CHUNK_BLOCKS :: nat where
  "NUM_HAZP_CHUNK_BLOCKS = 32"

definition FULL :: "32 word" where
  "FULL = - 1"

text \<open>The constructor: \<^verbatim>\<open>hp_count = blocksize * NUM_HAZP_CHUNK_BLOCKS\<close> slots, all null.\<close>

definition new_hazp_chunk :: "nat \<Rightarrow> hazp_chunk" where
  "new_hazp_chunk blocksize =
     \<lparr> haz_ptrs = replicate (blocksize * NUM_HAZP_CHUNK_BLOCKS) 0,
       bitmap = 0,
       blk_size = blocksize,
       hp_count = blocksize * NUM_HAZP_CHUNK_BLOCKS \<rparr>"

text \<open>
  \<^verbatim>\<open>__atomic_compare_exchange(&cell, &expected, &desired, ...)\<close>: the result is the
  success flag, the new content of the cell and the new content of \<^verbatim>\<open>expected\<close>.
\<close>

definition compare_exchange :: "'v \<Rightarrow> 'v \<Rightarrow> 'v \<Rightarrow> bool \<times> 'v \<times> 'v" where
  "compare_exchange cell expected desired =
     (if cell = expected then (True, desired, expected) else (False, cell, cell))"

subsection \<open>Reserving a block in one chunk\<close>

text \<open>
  The inner loop of \<^verbatim>\<open>reserve_impl\<close>:
  \<^verbatim>\<open>while (0 != (expected & mask) && ix < NUM_HAZP_CHUNK_BLOCKS) { mask <<= 1; ++ix; }\<close>
\<close>

function first_clear :: "32 word \<Rightarrow> 32 word \<Rightarrow> nat \<Rightarrow> 32 word \<times> nat" where
  "first_clear expected msk ix =
     (if expected AND msk \<noteq> 0 \<and> ix < NUM_HAZP_CHUNK_BLOCKS
      then first_clear expected (push_bit 1 msk) (ix + 1)
      else (msk, ix))"
  by pat_completeness auto
termination
  by (relation "measure (\<lambda>(expected, msk, ix). NUM_HAZP_CHUNK_BLOCKS - ix)") auto

declare first_clear.simps [simp del]

text \<open>
  A pointer to a block of hazard pointers: the chunk it lies in (chunks are numbered in
  the order of their creation, the oldest is 0) and the index of its first slot,
  \<^verbatim>\<open>&haz_ptrs[ix * blk_size]\<close>.
\<close>

datatype blockptr = Block (block_chunk: nat) (block_slot: nat)

text \<open>
  The outer loop of \<^verbatim>\<open>reserve_impl\<close>,
  \<^verbatim>\<open>while (expected != FULL && nullptr == reserved)\<close>. It returns no result (\<open>None\<close>)
  when it does not terminate.
\<close>

partial_function (option) reserve_loop ::
  "hazp_chunk \<Rightarrow> 32 word \<Rightarrow> nat option \<Rightarrow> (hazp_chunk \<times> nat option) option" where
  "reserve_loop c expected reserved =
     (if expected \<noteq> FULL \<and> reserved = None then
        (case first_clear expected 1 0 of (msk, ix) \<Rightarrow>
           if ix < NUM_HAZP_CHUNK_BLOCKS then
             (case compare_exchange (bitmap c) expected (expected OR msk) of
                (ok, cell, expected') \<Rightarrow>
                  if ok then reserve_loop (c\<lparr>bitmap := cell\<rparr>) expected' (Some (ix * blk_size c))
                  else reserve_loop c expected' reserved)
           else reserve_loop c expected reserved)
      else Some (c, reserved))"

definition reserve_impl :: "hazp_chunk \<Rightarrow> nat \<Rightarrow> (hazp_chunk \<times> nat option) option" where
  "reserve_impl c len =
     (if len \<noteq> blk_size c then Some (c, None)
      else reserve_loop c (bitmap c) None)"

subsection \<open>The domain\<close>

text \<open>
  \<^verbatim>\<open>hazard_pointer_domain\<close>: the list of chunks starting at \<^verbatim>\<open>pools_head\<close> (the newest
  chunk first) and the payloads of the delete nodes starting at \<^verbatim>\<open>delete_head\<close>.
\<close>

record hazard_pointer_domain =
  pools_head :: "hazp_chunk list"
  delete_head :: "hazptr list"

definition new_domain :: hazard_pointer_domain where
  "new_domain = \<lparr> pools_head = [], delete_head = [] \<rparr>"

text \<open>
  \<^verbatim>\<open>pools_new\<close> pushes a new chunk at the head; with one thread its compare-exchange
  finds the head it has just read.
\<close>

definition pools_new :: "hazard_pointer_domain \<Rightarrow> nat \<Rightarrow> hazard_pointer_domain" where
  "pools_new d blocklen = d\<lparr>pools_head := new_hazp_chunk blocklen # pools_head d\<rparr>"

text \<open>
  \<^verbatim>\<open>pools_reserve\<close>:
  \<^verbatim>\<open>for(auto p = head; nullptr != p && nullptr == reservation; ) reservation = p->reserve(blocklen);\<close>
  The chunk \<open>p\<close> is the position in the list; the loop has no step, so \<open>p\<close> is the
  same in every iteration.
\<close>

partial_function (option) pools_reserve_loop ::
  "hazp_chunk list \<Rightarrow> nat \<Rightarrow> nat \<Rightarrow> blockptr option \<Rightarrow> (hazp_chunk list \<times> blockptr option) option" where
  "pools_reserve_loop pools p blocklen reservation =
     (if p < length pools \<and> reservation = None then
        Option.bind (reserve_impl (pools ! p) blocklen) (\<lambda>(c, r).
          pools_reserve_loop (pools[p := c]) p blocklen
            (map_option (Block (length pools - 1 - p)) r))
      else Some (pools, reservation))"

definition pools_reserve ::
  "hazp_chunk list \<Rightarrow> nat \<Rightarrow> (hazp_chunk list \<times> blockptr option) option" where
  "pools_reserve head blocklen = pools_reserve_loop head 0 blocklen None"

datatype error =
    Assertion_failed
  | Out_of_bounds
  | Invalid_pointer
  | Division_by_zero
  | Missing_return

text \<open>
  \<^verbatim>\<open>hazard_pointer_domain::reserve\<close>. The result is \<open>None\<close> when the call does not
  return, \<open>Inl Assertion_failed\<close> when \<^verbatim>\<open>assert(nullptr != reservation)\<close> fails.
\<close>

definition reserve ::
  "hazard_pointer_domain \<Rightarrow> nat \<Rightarrow> (error + blockptr \<times> hazard_pointer_domain) option" where
  "reserve d blocklen =
     Option.bind (pools_reserve (pools_head d) blocklen) (\<lambda>(pools, reservation).
       Option.bind
         (if reservation = None then
            (let d' = pools_new (d\<lparr>pools_head := pools\<rparr>) blocklen
             in pools_reserve (pools_head d') blocklen)
          else Some (pools, reservation))
         (\<lambda>(pools', reservation').
            case reservation' of
              None \<Rightarrow> Some (Inl Assertion_failed)
            | Some b \<Rightarrow> Some (Inr (b, d\<lparr>pools_head := pools'\<rparr>))))"


text \<open>
  \<open>reserve_many n blocklen d\<close> calls \<open>reserve\<close> \<open>n\<close> times with the same block
  length, as \<open>n\<close> contexts with the same number of hazard pointers do when they are
  constructed one after the other, and collects the blocks.
\<close>

fun reserve_many ::
  "nat \<Rightarrow> nat \<Rightarrow> hazard_pointer_domain \<Rightarrow> (error + blockptr list \<times> hazard_pointer_domain) option" where
  "reserve_many 0 blocklen d = Some (Inr ([], d))"
| "reserve_many (Suc n) blocklen d =
     Option.bind (reserve_many n blocklen d) (\<lambda>r. case r of
        Inl e \<Rightarrow> Some (Inl e)
      | Inr (bs, d') \<Rightarrow>
          map_option (map_sum id (\<lambda>(b, d''). (bs @ [b], d''))) (reserve d' blocklen))"

text \<open>A chunk of block size \<open>blocklen\<close> whose first \<open>k\<close> blocks are reserved.\<close>

definition chunk_with :: "nat \<Rightarrow> nat \<Rightarrow> hazp_chunk" where
  "chunk_with blocklen k = (new_hazp_chunk blocklen)\<lparr>bitmap := mask k\<rparr>"

subsection \<open>Snapshot of the hazard pointers\<close>

text \<open>
  Modelled from the spec: \<^verbatim>\<open>mark_bits_maskoff\<close> is declared in \<^verbatim>\<open>mark_ptr_type.hpp\<close>,
  which is not among the sources. The spec gives it as the constant that, AND-ed with a
  word, clears the mark, the lowest bit of the word (the source keeps the line
  \<^verbatim>\<open>constexpr uintptr_t mark_bits_maskoff = ~1\<close> as a comment).
\<close>

definition mark_bits_maskoff :: hazptr where
  "mark_bits_maskoff = NOT 1"

text \<open>
  \<^verbatim>\<open>hazard_pointers_snapshot\<close>: the array \<^verbatim>\<open>ptrvalues\<close> of \<^verbatim>\<open>size\<close> words; \<^verbatim>\<open>begin\<close>
  and \<^verbatim>\<open>end\<close> point into it and are kept as indices.
\<close>

record hazard_pointers_snapshot =
  ptrvalues :: "hazptr list"
  snap_begin :: nat
  snap_end :: nat

text \<open>
  The loop of the constructor that moves \<^verbatim>\<open>begin\<close>:
  \<^verbatim>\<open>do { halfc = count >> 1;
       if (begin[halfc] == nullptr) { begin += halfc; count -= halfc; } else { count = halfc; }
     } while (count > 1);\<close>
  A read past the end of the array is an error of the model.
\<close>

function null_bisect :: "hazptr list \<Rightarrow> nat \<Rightarrow> nat \<Rightarrow> error + nat" where
  "null_bisect vals begin cnt =
     (let halfc = cnt div 2 in
      if length vals \<le> begin + halfc then Inl Out_of_bounds
      else if vals ! (begin + halfc) = 0
        then (if cnt - halfc > 1 then null_bisect vals (begin + halfc) (cnt - halfc)
              else Inr (begin + halfc))
        else (if halfc > 1 then null_bisect vals begin halfc else Inr begin))"
  by pat_completeness auto
termination
  by (relation "measure (\<lambda>(vals, begin, cnt). cnt)") auto

declare null_bisect.simps [simp del]

text \<open>
  The constructor: the sizes of the chunks are summed, the slots of every chunk are
  copied (\<^verbatim>\<open>copy_hazard_pointers\<close> copies the whole chunk), \<^verbatim>\<open>assert(count == size)\<close>,
  the array is sorted (\<^verbatim>\<open>std::sort\<close>), \<^verbatim>\<open>begin\<close> is moved, and the mark is cleared in
  every word of \<^verbatim>\<open>[begin, end)\<close>.
\<close>

definition copy_hazard_pointers :: "hazp_chunk \<Rightarrow> nat \<Rightarrow> error + hazptr list" where
  "copy_hazard_pointers c cnt =
     (if cnt < hp_count c then Inl Assertion_failed
      else Inr (take (hp_count c) (haz_ptrs c)))"

fun copy_pools :: "hazp_chunk list \<Rightarrow> error + hazptr list" where
  "copy_pools [] = Inr []"
| "copy_pools (p # pools) =
     (case copy_hazard_pointers p (hp_count p) of
        Inl e \<Rightarrow> Inl e
      | Inr vs \<Rightarrow> (case copy_pools pools of Inl e \<Rightarrow> Inl e | Inr ws \<Rightarrow> Inr (vs @ ws)))"

definition new_hazard_pointers_snapshot ::
  "hazard_pointer_domain \<Rightarrow> error + hazard_pointers_snapshot" where
  "new_hazard_pointers_snapshot domain =
     (let pools = pools_head domain;
          size = sum_list (map hp_count pools)
      in case copy_pools pools of
           Inl e \<Rightarrow> Inl e
         | Inr vals \<Rightarrow>
             if length vals \<noteq> size then Inl Assertion_failed
             else
               (let sorted_vals = sort vals
                in case null_bisect sorted_vals 0 (length vals) of
                     Inl e \<Rightarrow> Inl e
                   | Inr begin \<Rightarrow>
                       Inr \<lparr> ptrvalues = take begin sorted_vals
                                 @ map (\<lambda>p. p AND mark_bits_maskoff) (drop begin sorted_vals),
                             snap_begin = begin,
                             snap_end = size \<rparr>))"

text \<open>
  \<^verbatim>\<open>std::binary_search(begin, end, ptr)\<close>, as the standard library defines it: the first
  position whose element is not less than the value is found by bisection
  (\<^verbatim>\<open>std::lower_bound\<close>), and the value is found when that position is not the end and
  the value is not less than its element.
\<close>

function lower_bound :: "hazptr list \<Rightarrow> nat \<Rightarrow> nat \<Rightarrow> hazptr \<Rightarrow> nat" where
  "lower_bound xs first cnt v =
     (if cnt > 0 then
        (let step = cnt div 2; it = first + step
         in if xs ! it < v then lower_bound xs (it + 1) (cnt - (step + 1)) v
            else lower_bound xs first step v)
      else first)"
  by pat_completeness auto
termination
  by (relation "measure (\<lambda>(xs, first, cnt, v). cnt)") auto

declare lower_bound.simps [simp del]

definition binary_search :: "hazptr list \<Rightarrow> nat \<Rightarrow> nat \<Rightarrow> hazptr \<Rightarrow> bool" where
  "binary_search xs first lst v =
     (let i = lower_bound xs first (lst - first) v
      in i \<noteq> lst \<and> \<not> v < xs ! i)"

definition search :: "hazard_pointers_snapshot \<Rightarrow> hazptr \<Rightarrow> bool" where
  "search hps p = binary_search (ptrvalues hps) (snap_begin hps) (snap_end hps) p"

subsection \<open>The context of a thread\<close>

text \<open>
  \<^verbatim>\<open>hazard_pointer_context<T, S, R>\<close>: the retire buffer \<^verbatim>\<open>deleted[R]\<close> (its length is
  \<open>R\<close>), the counter \<^verbatim>\<open>del_index\<close> (an \<^verbatim>\<open>unsigned\<close>, which wraps) and the
  reserved block. The domain it points to is passed along with it.
\<close>

record hazard_pointer_context =
  deleted :: "hazptr list"
  del_index :: "32 word"
  hp_block :: blockptr

text \<open>\<^verbatim>\<open>push_delete_node\<close> and \<^verbatim>\<open>enqueue_for_delete(T* item_ptr)\<close>: a new node at the head.\<close>

definition enqueue_for_delete :: "hazard_pointer_domain \<Rightarrow> hazptr \<Rightarrow> hazard_pointer_domain" where
  "enqueue_for_delete d item_ptr = d\<lparr>delete_head := item_ptr # delete_head d\<rparr>"

text \<open>
  \<^verbatim>\<open>enqueue_for_delete(T** items_ptr, unsigned count)\<close>:
  \<^verbatim>\<open>for (x = 0; x < count; ++x)
       if (nullptr != items_ptr[x]) { enqueue_for_delete(items_ptr[x]); items_ptr[x] = nullptr; }\<close>
\<close>

definition enqueue_step ::
  "nat \<Rightarrow> hazard_pointer_domain \<times> hazptr list \<Rightarrow> hazard_pointer_domain \<times> hazptr list" where
  "enqueue_step x = (\<lambda>(d, items).
     if items ! x \<noteq> 0 then (enqueue_for_delete d (items ! x), items[x := 0])
     else (d, items))"

definition enqueue_all_for_delete ::
  "hazard_pointer_domain \<Rightarrow> hazptr list \<Rightarrow> nat \<Rightarrow> hazard_pointer_domain \<times> hazptr list" where
  "enqueue_all_for_delete d items_ptr cnt = fold enqueue_step [0..<cnt] (d, items_ptr)"

text \<open>
  The first loop of \<^verbatim>\<open>reclaim\<close>:
  \<^verbatim>\<open>for (ix = 0; ix < R; ++ix)
       if (!hps.search(deleted[ix])) { --del_index; delete deleted[ix]; deleted[ix] = nullptr; }\<close>
  The pointers given to \<^verbatim>\<open>delete\<close> are collected in the order of the calls.
\<close>

definition reclaim_step ::
  "hazard_pointers_snapshot \<Rightarrow> nat \<Rightarrow> hazard_pointer_context \<times> hazptr list
    \<Rightarrow> hazard_pointer_context \<times> hazptr list" where
  "reclaim_step hps ix = (\<lambda>(ctx, freed).
     if \<not> search hps (deleted ctx ! ix)
     then (ctx\<lparr>del_index := del_index ctx - 1, deleted := (deleted ctx)[ix := 0]\<rparr>,
           freed @ [deleted ctx ! ix])
     else (ctx, freed))"

text \<open>
  The compaction of \<^verbatim>\<open>reclaim\<close>, with its two inner loops
  \<^verbatim>\<open>while (nullptr != deleted[ixd] && ixd < ixs) ++ixd;\<close> and
  \<^verbatim>\<open>while (nullptr == deleted[ixs] && ixd < ixs) --ixs;\<close>
\<close>

function skip_live :: "hazptr list \<Rightarrow> nat \<Rightarrow> nat \<Rightarrow> nat" where
  "skip_live del ixd ixs =
     (if del ! ixd \<noteq> 0 \<and> ixd < ixs then skip_live del (ixd + 1) ixs else ixd)"
  by pat_completeness auto
termination
  by (relation "measure (\<lambda>(del, ixd, ixs). ixs - ixd)") auto

function skip_null :: "hazptr list \<Rightarrow> nat \<Rightarrow> nat \<Rightarrow> nat" where
  "skip_null del ixd ixs =
     (if del ! ixs = 0 \<and> ixd < ixs then skip_null del ixd (ixs - 1) else ixs)"
  by pat_completeness auto
termination
  by (relation "measure (\<lambda>(del, ixd, ixs). ixs - ixd)") auto

declare skip_live.simps [simp del]
declare skip_null.simps [simp del]

lemma skip_live_bounds:
  "ixd \<le> ixs \<Longrightarrow> ixd \<le> skip_live del ixd ixs \<and> skip_live del ixd ixs \<le> ixs"
proof (induction del ixd ixs rule: skip_live.induct)
  case (1 del ixd ixs)
  then show ?case by (subst (1 2) skip_live.simps) auto
qed

lemma skip_live_stops:
  "skip_live del ixd ixs < ixs \<Longrightarrow> del ! skip_live del ixd ixs = 0"
proof (induction del ixd ixs rule: skip_live.induct)
  case (1 del ixd ixs)
  show ?case
  proof (cases "del ! ixd \<noteq> 0 \<and> ixd < ixs")
    case True
    then have eq: "skip_live del ixd ixs = skip_live del (ixd + 1) ixs"
      by (subst skip_live.simps) simp
    with 1 True show ?thesis by simp
  next
    case False
    then have eq: "skip_live del ixd ixs = ixd"
      by (subst skip_live.simps) auto
    with 1(2) False show ?thesis by auto
  qed
qed

lemma skip_null_bounds:
  "ixd \<le> ixs \<Longrightarrow> ixd \<le> skip_null del ixd ixs \<and> skip_null del ixd ixs \<le> ixs"
proof (induction del ixd ixs rule: skip_null.induct)
  case (1 del ixd ixs)
  show ?case
  proof (cases "del ! ixs = 0 \<and> ixd < ixs")
    case True
    then have "skip_null del ixd ixs = skip_null del ixd (ixs - 1)"
      by (subst skip_null.simps) simp
    moreover have "ixd \<le> ixs - 1" using True by auto
    ultimately show ?thesis using 1(1) [OF True] by auto
  next
    case False
    then have "skip_null del ixd ixs = ixs"
      by (subst skip_null.simps) auto
    with 1(2) show ?thesis by simp
  qed
qed

lemma skip_null_stops:
  "ixd < skip_null del ixd ixs \<Longrightarrow> del ! skip_null del ixd ixs \<noteq> 0"
proof (induction del ixd ixs rule: skip_null.induct)
  case (1 del ixd ixs)
  show ?case
  proof (cases "del ! ixs = 0 \<and> ixd < ixs")
    case True
    then have eq: "skip_null del ixd ixs = skip_null del ixd (ixs - 1)"
      by (subst skip_null.simps) simp
    with 1 True show ?thesis by simp
  next
    case False
    then have eq: "skip_null del ixd ixs = ixs"
      by (subst skip_null.simps) auto
    with 1(2) False show ?thesis by auto
  qed
qed

text \<open>
  \<^verbatim>\<open>while (ixd < ixs) { ...the two inner loops...
       if (nullptr != deleted[ixs] && nullptr == deleted[ixd])
         { std::swap(deleted[ixs], deleted[ixd]); ++ixd; --ixs; } }\<close>
\<close>

function compact :: "hazptr list \<Rightarrow> nat \<Rightarrow> nat \<Rightarrow> hazptr list" where
  "compact del ixd ixs =
     (if ixd < ixs then
        (let ixd' = skip_live del ixd ixs;
             ixs' = skip_null del ixd' ixs
         in if del ! ixs' \<noteq> 0 \<and> del ! ixd' = 0
            then compact (del[ixs' := del ! ixd', ixd' := del ! ixs']) (ixd' + 1) (ixs' - 1)
            else compact del ixd' ixs')
      else del)"
  by pat_completeness auto
termination
proof (relation "measure (\<lambda>(del, ixd, ixs). ixs - ixd)", goal_cases)
  case 1
  show ?case by simp
next
  case (2 del ixd ixs ixd' ixs')
  then show ?case
    using skip_live_bounds [of ixd ixs del] skip_null_bounds [of ixd' ixs del]
    by (cases "ixd' < ixs'") (auto simp: not_less)
next
  case (3 del ixd ixs ixd' ixs')
  have a: "ixd \<le> ixd'" "ixd' \<le> ixs"
    using skip_live_bounds [of ixd ixs del] 3 by auto
  have b: "ixd' \<le> ixs'" "ixs' \<le> ixs"
    using skip_null_bounds [of ixd' ixs del] 3 a by auto
  have "ixs' = ixd'"
  proof (rule ccontr)
    assume "ixs' \<noteq> ixd'"
    with b have lt: "ixd' < ixs'" by simp
    then have "del ! ixs' \<noteq> 0" using skip_null_stops [of ixd' del ixs] 3 by simp
    moreover have "del ! ixd' = 0" using skip_live_stops [of del ixd ixs] 3 lt b by simp
    ultimately show False using 3 by simp
  qed
  with a b 3 show ?case by simp
qed

declare compact.simps [simp del]

text \<open>
  \<^verbatim>\<open>hazard_pointer_context::reclaim\<close>. The result is the domain, the context and the
  pointers that were freed.
\<close>

definition reclaim ::
  "hazard_pointer_domain \<Rightarrow> hazard_pointer_context
    \<Rightarrow> error + hazard_pointer_domain \<times> hazard_pointer_context \<times> hazptr list" where
  "reclaim domain ctx =
     (let R = length (deleted ctx) in
      case new_hazard_pointers_snapshot domain of
        Inl e \<Rightarrow> Inl e
      | Inr hps \<Rightarrow>
          (case fold (reclaim_step hps) [0..<R] (ctx, []) of (ctx1, freed) \<Rightarrow>
             if unat (del_index ctx1) = R then
               (case enqueue_all_for_delete domain (deleted ctx1) R of (domain', items) \<Rightarrow>
                  Inr (domain', ctx1\<lparr>deleted := items, del_index := 0\<rparr>, freed))
             else if R = 0 then Inl Out_of_bounds
             else Inr (domain, ctx1\<lparr>deleted := compact (deleted ctx1) 0 (R - 1)\<rparr>, freed)))"

text \<open>
  \<^verbatim>\<open>delete_item\<close>: \<^verbatim>\<open>assert(del_index <= R); deleted[del_index] = item_ptr; ++del_index;
  if (del_index == R) reclaim();\<close>
\<close>

definition delete_item ::
  "hazard_pointer_domain \<Rightarrow> hazard_pointer_context \<Rightarrow> hazptr
    \<Rightarrow> error + hazard_pointer_domain \<times> hazard_pointer_context \<times> hazptr list" where
  "delete_item domain ctx item_ptr =
     (let R = length (deleted ctx) in
      if R < unat (del_index ctx) then Inl Assertion_failed
      else if R \<le> unat (del_index ctx) then Inl Out_of_bounds
      else
        (let ctx1 = ctx\<lparr>deleted := (deleted ctx)[unat (del_index ctx) := item_ptr],
                        del_index := del_index ctx + 1\<rparr>
         in if unat (del_index ctx1) = R then reclaim domain ctx1
            else Inr (domain, ctx1, [])))"


text \<open>
  A domain with one chunk of block size 1, as it is after one context has reserved its
  block and stored the pointer 4096 in its hazard pointer: one slot is set, 31 are null.
  The second definition is the snapshot the constructor builds of it.
\<close>

definition one_pinned_domain :: hazard_pointer_domain where
  "one_pinned_domain =
     \<lparr> pools_head = [(chunk_with 1 1)\<lparr>haz_ptrs := (haz_ptrs (chunk_with 1 1))[0 := 4096]\<rparr>],
       delete_head = [] \<rparr>"

definition one_pinned_snapshot :: hazard_pointers_snapshot where
  "one_pinned_snapshot =
     \<lparr> ptrvalues = replicate 31 0 @ [4096], snap_begin = 30, snap_end = 32 \<rparr>"

text \<open>
  The retire buffer is compacted when its non-null entries come first: \<open>m\<close> of them,
  and null entries after them.
\<close>

definition partitioned :: "hazptr list \<Rightarrow> nat \<Rightarrow> bool" where
  "partitioned del m \<longleftrightarrow>
     m \<le> length del \<and> (\<forall>i<m. del ! i \<noteq> 0) \<and> (\<forall>i. m \<le> i \<and> i < length del \<longrightarrow> del ! i = 0)"

text \<open>
  A context with a full retire buffer of three pointers, of which the second is the one
  the hazard pointer of \<open>one_pinned_domain\<close> protects.
\<close>

definition mixed_context :: hazard_pointer_context where
  "mixed_context = \<lparr> deleted = [8192, 4096, 12288], del_index = 3, hp_block = Block 0 0 \<rparr>"

section \<open>The split-ordered list\<close>

subsection \<open>Results of operations\<close>

text \<open>
  An operation that can fail returns \<open>Inl\<close> of the error or \<open>Inr\<close> of its result; an
  operation with a loop that need not terminate returns an option of that, \<open>None\<close>
  when it does not return. \<open>bindE\<close> continues after a step that can fail, \<open>bindO\<close>
  after a step that need not return.
\<close>

definition bindE :: "error + 'x \<Rightarrow> ('x \<Rightarrow> (error + 'y) option) \<Rightarrow> (error + 'y) option" where
  "bindE m f = (case m of Inl e \<Rightarrow> Some (Inl e) | Inr x \<Rightarrow> f x)"

definition bindO ::
  "(error + 'x) option \<Rightarrow> ('x \<Rightarrow> (error + 'y) option) \<Rightarrow> (error + 'y) option" where
  "bindO m f = (case m of None \<Rightarrow> None | Some r \<Rightarrow> bindE r f)"

definition ok :: "'x \<Rightarrow> (error + 'x) option" where
  "ok x = Some (Inr x)"

definition fail :: "error \<Rightarrow> (error + 'x) option" where
  "fail e = Some (Inl e)"

lemma bindE_mono [partial_function_mono]:
  assumes "\<And>x. mono_option (\<lambda>f. C x f)"
  shows "mono_option (\<lambda>f. bindE m (\<lambda>x. C x f))"
proof (cases m)
  case (Inl e)
  then show ?thesis by (simp add: bindE_def option.const_mono)
next
  case (Inr x)
  then show ?thesis using assms [of x] by (simp add: bindE_def)
qed

lemma bindO_mono [partial_function_mono]:
  assumes "mono_option B" and "\<And>x. mono_option (\<lambda>f. C x f)"
  shows "mono_option (\<lambda>f. bindO (B f) (\<lambda>x. C x f))"
proof -
  have eq: "bindO m k = Option.bind m (\<lambda>r. bindE r k)"
    for m :: "(error + 'c) option" and k :: "'c \<Rightarrow> (error + 'd) option"
    by (cases m) (simp_all add: bindO_def)
  show ?thesis
    unfolding eq by (intro bind_mono assms bindE_mono)
qed

subsection \<open>Keys\<close>

type_synonym hash_t = "32 word"
type_synonym so_key = "32 word"

definition DATABIT :: hash_t where
  "DATABIT = 1"

text \<open>
  Modelled from the spec: \<^verbatim>\<open>reverse_hasht_bits\<close> is declared in the source and defined
  in a file that is not among the sources. The spec gives it as the pure function
  \<^verbatim>\<open>reverse_bits(h: u32) -> u32\<close>, the bit-reversed hash.
\<close>

definition reverse_hasht_bits :: "hash_t \<Rightarrow> hash_t" where
  "reverse_hasht_bits hashv = word_reverse hashv"

definition sol_node_key :: "hash_t \<Rightarrow> so_key" where
  "sol_node_key hashv = reverse_hasht_bits hashv OR DATABIT"

text \<open>\<^verbatim>\<open>sol_bucket_key\<close>, with its \<^verbatim>\<open>assert(0 == (bucket_key & DATABIT))\<close>.\<close>

definition sol_bucket_key :: "hash_t \<Rightarrow> error + so_key" where
  "sol_bucket_key hashv =
     (let bucket_key = reverse_hasht_bits hashv
      in if bucket_key AND DATABIT = 0 then Inr bucket_key else Inl Assertion_failed)"

subsection \<open>Nodes\<close>

type_synonym addr = nat

text \<open>
  Modelled from the spec: \<^verbatim>\<open>mark_ptr_type<T>\<close> is defined in \<^verbatim>\<open>mark_ptr_type.hpp\<close>,
  which is not among the sources. By the spec it is a word that holds a pointer and, in
  its lowest bit, a mark; \<^verbatim>\<open>operator()\<close> gives the pointer with the mark cleared;
  \<^verbatim>\<open>CAS(expected_ptr, new_ptr)\<close> compares the full word with the expected pointer and
  mark 0; \<^verbatim>\<open>CAS(expected_ptr, new_ptr, new_mark)\<close> compares the pointer bits only and
  writes pointer and mark together. Assigning a pointer stores it with mark 0.
  A pointer to a node is \<open>Some\<close> of its address, \<^verbatim>\<open>nullptr\<close> is \<open>None\<close>.
\<close>

record mark_ptr_type =
  mp_ptr :: "addr option"
  mp_mark :: bool

definition unmarked :: "addr option \<Rightarrow> mark_ptr_type" where
  "unmarked p = \<lparr> mp_ptr = p, mp_mark = False \<rparr>"

definition CAS :: "mark_ptr_type \<Rightarrow> addr option \<Rightarrow> addr option \<Rightarrow> bool \<times> mark_ptr_type" where
  "CAS cell expected_ptr new_ptr =
     (if cell = unmarked expected_ptr then (True, unmarked new_ptr) else (False, cell))"

definition CAS_mark ::
  "mark_ptr_type \<Rightarrow> addr option \<Rightarrow> addr option \<Rightarrow> bool \<Rightarrow> bool \<times> mark_ptr_type" where
  "CAS_mark cell expected_ptr new_ptr new_mark =
     (if mp_ptr cell = expected_ptr then (True, \<lparr> mp_ptr = new_ptr, mp_mark = new_mark \<rparr>)
      else (False, cell))"

text \<open>
  \<^verbatim>\<open>solist_bucket\<close> and \<^verbatim>\<open>solist_node<T>\<close>: a dummy node has no payload, a data node
  has one. The field \<^verbatim>\<open>next\<close> is \<open>nextp\<close> here.
\<close>

record 'a solist_bucket =
  hashv :: hash_t
  key :: so_key
  nextp :: mark_ptr_type
  payload :: "'a option"

definition is_node :: "'a solist_bucket \<Rightarrow> bool" where
  "is_node n \<longleftrightarrow> DATABIT = key n AND DATABIT"

definition new_solist_bucket :: "hash_t \<Rightarrow> error + 'a solist_bucket" where
  "new_solist_bucket h =
     (case sol_bucket_key h of
        Inl e \<Rightarrow> Inl e
      | Inr k \<Rightarrow> Inr \<lparr> hashv = h, key = k, nextp = unmarked None, payload = None \<rparr>)"

definition new_solist_node :: "'a \<Rightarrow> hash_t \<Rightarrow> error + 'a solist_bucket" where
  "new_solist_node data h =
     (case new_solist_bucket h of
        Inl e \<Rightarrow> Inl e
      | Inr b \<Rightarrow> Inr (b\<lparr> payload := Some data, key := key b OR DATABIT \<rparr>))"

subsection \<open>The list and its accessor\<close>

text \<open>
  The state: the nodes on the heap (\<open>fresh\<close> is the next address \<^verbatim>\<open>new\<close> gives out,
  \<open>freed\<close> the addresses given to \<^verbatim>\<open>delete\<close>), the fields of \<^verbatim>\<open>solist<T>\<close> (\<^verbatim>\<open>size\<close>
  is \<open>so_size\<close> here) and the fields of the one \<^verbatim>\<open>solist_accessor<T>\<close> that works on
  it (\<^verbatim>\<open>next\<close> is \<open>nxt\<close> here).
\<close>

record 'a solist =
  heap :: "addr \<Rightarrow> 'a solist_bucket option"
  fresh :: addr
  freed :: "addr list"
  so_size :: "32 word"
  max_bucket_length :: "32 word"
  n_items :: "32 word"
  buckets :: "addr option list"
  prev :: "addr option"
  cur :: "addr option"
  nxt :: "addr option"
  steps :: "32 word"

definition alloc :: "'a solist \<Rightarrow> 'a solist_bucket \<Rightarrow> addr \<times> 'a solist" where
  "alloc s n = (fresh s, s\<lparr> heap := (heap s)(fresh s \<mapsto> n), fresh := fresh s + 1 \<rparr>)"

text \<open>Reading through a pointer: null and freed pointers are errors.\<close>

definition deref :: "'a solist \<Rightarrow> addr option \<Rightarrow> error + addr \<times> 'a solist_bucket" where
  "deref s p =
     (case p of
        None \<Rightarrow> Inl Invalid_pointer
      | Some a \<Rightarrow> (case heap s a of None \<Rightarrow> Inl Invalid_pointer | Some n \<Rightarrow> Inr (a, n)))"

definition store :: "'a solist \<Rightarrow> addr \<Rightarrow> 'a solist_bucket \<Rightarrow> 'a solist" where
  "store s a n = s\<lparr> heap := (heap s)(a \<mapsto> n) \<rparr>"

definition delete_obj :: "'a solist \<Rightarrow> addr \<Rightarrow> (error + 'a solist) option" where
  "delete_obj s a =
     (case heap s a of
        None \<Rightarrow> fail Invalid_pointer
      | Some n \<Rightarrow> ok (s\<lparr> heap := (heap s)(a := None), freed := a # freed s \<rparr>))"

definition bucket_at :: "'a solist \<Rightarrow> nat \<Rightarrow> error + addr option" where
  "bucket_at s i = (if i < length (buckets s) then Inr (buckets s ! i) else Inl Out_of_bounds)"

text \<open>
  The constructor \<^verbatim>\<open>solist(size, bucket_length)\<close> with the accessor's \<^verbatim>\<open>hazp_init\<close>;
  \<^verbatim>\<open>solist(size)\<close> is the same with the bucket length 4. The source leaves
  \<^verbatim>\<open>steps\<close> uninitialised; every use is after \<^verbatim>\<open>find_node\<close> has set it.
\<close>

definition new_solist :: "32 word \<Rightarrow> 32 word \<Rightarrow> error + 'a solist" where
  "new_solist size0 bucket_length =
     (if size0 = 0 then Inl Out_of_bounds
      else case new_solist_bucket 0 of
        Inl e \<Rightarrow> Inl e
      | Inr node \<Rightarrow>
          Inr \<lparr> heap = Map.empty(0 \<mapsto> node), fresh = 1, freed = [],
                so_size = size0, max_bucket_length = bucket_length, n_items = 0,
                buckets = (replicate (unat size0) None)[0 := Some 0],
                prev = None, cur = None, nxt = None, steps = 0 \<rparr>)"

definition inc_item_count :: "'a solist \<Rightarrow> 'a solist" where
  "inc_item_count s = s\<lparr> n_items := n_items s + 1 \<rparr>"

definition dec_item_count :: "'a solist \<Rightarrow> 'a solist" where
  "dec_item_count s = s\<lparr> n_items := n_items s - 1 \<rparr>"

text \<open>
  \<^verbatim>\<open>expand\<close>: the table of twice the size gets the old entries and null in its new
  half. Writing \<^verbatim>\<open>size\<close> entries into a table of \<^verbatim>\<open>size * 2\<close> entries is out of
  bounds when the product wraps.
\<close>

definition expand :: "32 word \<Rightarrow> 'a solist \<Rightarrow> (error + 'a solist) option" where
  "expand curr_size s =
     (if curr_size < so_size s then ok s
      else
        (let new_size = so_size s * 2 in
         if length (buckets s) < unat (so_size s) \<or> unat new_size < unat (so_size s)
         then fail Out_of_bounds
         else ok (s\<lparr> buckets := take (unat (so_size s)) (buckets s)
                                   @ replicate (unat new_size - unat (so_size s)) None,
                       so_size := new_size \<rparr>)))"

text \<open>
  \<^verbatim>\<open>advance\<close>: \<^verbatim>\<open>prev = cur; cur = next; if (nullptr != cur) next = cur->next();\<close>
  The mark of \<^verbatim>\<open>cur->next\<close> is dropped and not looked at.
\<close>

definition advance :: "'a solist \<Rightarrow> error + 'a solist" where
  "advance s =
     (let s1 = s\<lparr> prev := cur s, cur := nxt s \<rparr>
      in case cur s1 of
           None \<Rightarrow> Inr s1
         | Some a \<Rightarrow>
             (case deref s1 (Some a) of
                Inl e \<Rightarrow> Inl e
              | Inr (_, c) \<Rightarrow> Inr (s1\<lparr> nxt := mp_ptr (nextp c) \<rparr>)))"

definition zap :: "'a solist \<Rightarrow> 'a solist" where
  "zap s = s\<lparr> prev := None, cur := None, nxt := None \<rparr>"

text \<open>
  The three walks of the accessor have one shape,
  \<^verbatim>\<open>while (nullptr != next && cond(next)) { advance(); ++steps; }\<close>:
  in \<^verbatim>\<open>get_parent\<close> the condition is \<^verbatim>\<open>next->key < key\<close> and \<^verbatim>\<open>steps\<close> is not
  counted, in \<^verbatim>\<open>find_node\<close> it is \<^verbatim>\<open>next->key <= key\<close>, in \<^verbatim>\<open>insert_node\<close>
  \<^verbatim>\<open>next->is_node()\<close>. \<open>counting\<close> says whether \<^verbatim>\<open>steps\<close> is counted.
\<close>

partial_function (option) advance_while ::
  "('a solist_bucket \<Rightarrow> bool) \<Rightarrow> bool \<Rightarrow> 'a solist \<Rightarrow> (error + 'a solist) option" where
  "advance_while cond counting s =
     (if nxt s = None then ok s
      else bindE (deref s (nxt s)) (\<lambda>(_, n).
        if cond n then
          bindE (advance s) (\<lambda>s1.
            advance_while cond counting (if counting then s1\<lparr> steps := steps s1 + 1 \<rparr> else s1))
        else ok s))"

text \<open>
  The first loop of \<^verbatim>\<open>get_parent\<close>,
  \<^verbatim>\<open>while (slot-- != 0) if (so_list->buckets[slot]) prev = cur = so_list->buckets[slot];\<close>
  The result is the final \<^verbatim>\<open>cur\<close>.
\<close>

function get_parent_scan :: "addr option list \<Rightarrow> 32 word \<Rightarrow> addr option \<Rightarrow> error + addr option" where
  "get_parent_scan bs slot c =
     (if slot \<noteq> 0 then
        (let slot' = slot - 1 in
         if unat slot' < length bs
         then get_parent_scan bs slot' (if bs ! unat slot' \<noteq> None then bs ! unat slot' else c)
         else Inl Out_of_bounds)
      else Inr c)"
  by pat_completeness auto
termination
  by (relation "measure (\<lambda>(bs, slot, c). unat slot)") (auto simp: unat_minus_one unat_gt_0)

declare get_parent_scan.simps [simp del]

text \<open>\<^verbatim>\<open>prev = cur = b; next = cur->next();\<close>, as \<^verbatim>\<open>get_parent\<close> and \<^verbatim>\<open>find_node\<close> start.\<close>

definition start_at :: "addr option \<Rightarrow> 'a solist \<Rightarrow> error + 'a solist" where
  "start_at b s =
     (case deref s b of
        Inl e \<Rightarrow> Inl e
      | Inr (_, c) \<Rightarrow> Inr (s\<lparr> prev := b, cur := b, nxt := mp_ptr (nextp c) \<rparr>))"

text \<open>\<^verbatim>\<open>get_parent\<close>: the scan over the buckets, then the walk to the place of the key.\<close>

definition get_parent :: "32 word \<Rightarrow> so_key \<Rightarrow> 'a solist \<Rightarrow> (error + 'a solist) option" where
  "get_parent slot k s =
     bindE (bucket_at s 0) (\<lambda>b0.
     bindE (get_parent_scan (buckets s) slot b0) (\<lambda>b.
     bindE (start_at b s) (\<lambda>s1.
       advance_while (\<lambda>n. key n < k) False s1)))"

text \<open>
  The condition of the loop of \<^verbatim>\<open>initialise_bucket\<close>,
  \<^verbatim>\<open>nullptr == so_list->buckets[slot] && (nullptr == next || next->key != key)
     && (!cur->next.CAS(next, node))\<close>,
  evaluated from left to right; the compare-and-swap changes the list. The result is
  the value of the condition and the state.
\<close>

definition link_failed :: "32 word \<Rightarrow> addr \<Rightarrow> so_key \<Rightarrow> 'a solist \<Rightarrow> error + bool \<times> 'a solist" where
  "link_failed slot node k s =
     (case bucket_at s (unat slot) of
        Inl e \<Rightarrow> Inl e
      | Inr b \<Rightarrow>
          if b \<noteq> None then Inr (False, s)
          else
            (case (if nxt s = None then Inr True
                   else case deref s (nxt s) of
                          Inl e \<Rightarrow> Inl e | Inr (_, nn) \<Rightarrow> Inr (key nn \<noteq> k)) of
               Inl e \<Rightarrow> Inl e
             | Inr differs \<Rightarrow>
                 if \<not> differs then Inr (False, s)
                 else
                   (case deref s (cur s) of
                      Inl e \<Rightarrow> Inl e
                    | Inr (ca, c) \<Rightarrow>
                        (case CAS (nextp c) (nxt s) (Some node) of
                           (swapped, cell) \<Rightarrow>
                             Inr (\<not> swapped, store s ca (c\<lparr> nextp := cell \<rparr>))))))"

text \<open>
  The loop of \<^verbatim>\<open>initialise_bucket\<close>:
  \<^verbatim>\<open>do { get_parent(slot, key); node->next = next; } while (...);\<close>
\<close>

partial_function (option) initialise_bucket_loop ::
  "32 word \<Rightarrow> addr \<Rightarrow> so_key \<Rightarrow> 'a solist \<Rightarrow> (error + 'a solist) option" where
  "initialise_bucket_loop slot node k s =
     bindO (get_parent slot k s) (\<lambda>s1.
     bindE (deref s1 (Some node)) (\<lambda>(_, n).
     bindE (link_failed slot node k (store s1 node (n\<lparr> nextp := unmarked (nxt s1) \<rparr>)))
       (\<lambda>(again, s2).
          if again then initialise_bucket_loop slot node k s2 else ok s2)))"

text \<open>
  The rest of \<^verbatim>\<open>initialise_bucket\<close> after the loop: the new node is published in the
  table when it was linked, another node with the key is adopted and the new node
  deleted otherwise; at the end the two assertions.
\<close>

definition publish_bucket :: "32 word \<Rightarrow> addr \<Rightarrow> so_key \<Rightarrow> 'a solist \<Rightarrow> (error + 'a solist) option" where
  "publish_bucket slot node k s =
     bindE (bucket_at s (unat slot)) (\<lambda>b.
     bindO
       (if b = None then
          bindE (deref s (cur s)) (\<lambda>(_, c).
            if mp_ptr (nextp c) = Some node
            then ok (s\<lparr> buckets := (buckets s)[unat slot := Some node], nxt := Some node \<rparr>)
            else
              (let s1 = s\<lparr> buckets := (buckets s)[unat slot := nxt s] \<rparr> in
               bindE (deref s1 (nxt s)) (\<lambda>(_, bn).
                 if key bn \<noteq> k then fail Assertion_failed
                 else delete_obj s1 node)))
        else delete_obj s node)
       (\<lambda>s2.
          bindE (bucket_at s2 (unat slot)) (\<lambda>b2.
            if b2 = None then fail Assertion_failed
            else bindE (deref s2 b2) (\<lambda>(_, bn).
              if key bn \<noteq> k then fail Assertion_failed else ok s2))))"

text \<open>\<^verbatim>\<open>initialise_bucket\<close>.\<close>

definition initialise_bucket :: "hash_t \<Rightarrow> 'a solist \<Rightarrow> (error + 'a solist) option" where
  "initialise_bucket slot s =
     (if \<not> slot < so_size s then fail Assertion_failed
      else
        bindE (bucket_at s (unat slot)) (\<lambda>b.
          if b \<noteq> None then ok s
          else
            bindE (new_solist_bucket slot) (\<lambda>new_node.
              case alloc s new_node of
                (node, s0) \<Rightarrow>
                  bindO (initialise_bucket_loop slot node (key new_node) s0)
                    (publish_bucket slot node (key new_node)))))"

text \<open>
  \<^verbatim>\<open>find_node\<close>: the result is the flag and the state, with the cursor where the walk
  stopped.
\<close>

definition find_node :: "hash_t \<Rightarrow> 'a solist \<Rightarrow> (error + bool \<times> 'a solist) option" where
  "find_node h s =
     (if so_size s = 0 then fail Division_by_zero
      else
        (let slot = h mod so_size s; k = sol_node_key h in
         bindE (bucket_at s (unat slot)) (\<lambda>b.
         bindO (if b = None then initialise_bucket slot s else ok s) (\<lambda>s1.
         bindE (bucket_at s1 (unat slot)) (\<lambda>b1.
         bindE (start_at b1 s1) (\<lambda>s2.
         bindO (advance_while (\<lambda>n. key n \<le> k) True (s2\<lparr> steps := 0 \<rparr>)) (\<lambda>s3.
           if cur s3 = None then ok (False, s3)
           else bindE (deref s3 (cur s3)) (\<lambda>(_, c).
             if key c \<noteq> k then ok (False, s3) else ok (True, s3)))))))))"

text \<open>
  \<^verbatim>\<open>dnode->next = next; cur->next.CAS(next, dnode)\<close>: the result is whether the
  compare-and-swap succeeded, and the state.
\<close>

definition link_node :: "addr \<Rightarrow> 'a solist \<Rightarrow> error + bool \<times> 'a solist" where
  "link_node dnode s =
     (case deref s (Some dnode) of
        Inl e \<Rightarrow> Inl e
      | Inr (_, d) \<Rightarrow>
          (let s1 = store s dnode (d\<lparr> nextp := unmarked (nxt s) \<rparr>) in
           case deref s1 (cur s1) of
             Inl e \<Rightarrow> Inl e
           | Inr (ca, c) \<Rightarrow>
               (case CAS (nextp c) (nxt s1) (Some dnode) of
                  (swapped, cell) \<Rightarrow> Inr (swapped, store s1 ca (c\<lparr> nextp := cell \<rparr>)))))"

text \<open>
  The loop of \<^verbatim>\<open>insert_node\<close>:
  \<^verbatim>\<open>while (true) { if (find_node(hashv)) break;
       dnode->next = next;
       if (cur->next.CAS(next, dnode)) { so_list->inc_item_count(); result = true; break; } }\<close>
\<close>

partial_function (option) insert_loop ::
  "hash_t \<Rightarrow> addr \<Rightarrow> 'a solist \<Rightarrow> (error + bool \<times> 'a solist) option" where
  "insert_loop h dnode s =
     bindO (find_node h s) (\<lambda>(found, s1).
       if found then ok (False, s1)
       else
         bindE (link_node dnode s1) (\<lambda>(swapped, s2).
           if swapped then ok (True, inc_item_count s2)
           else insert_loop h dnode s2))"

text \<open>
  The expansion check of \<^verbatim>\<open>insert_node\<close> after a successful insertion: the walk to
  the end of the run of data nodes, and the expansion or the split of the bucket.
\<close>

definition expansion_check :: "hash_t \<Rightarrow> 32 word \<Rightarrow> 'a solist \<Rightarrow> (error + 'a solist) option" where
  "expansion_check h nbuckets s =
     bindE (deref s (cur s)) (\<lambda>(_, c).
     bindO (advance_while is_node True (s\<lparr> nxt := mp_ptr (nextp c) \<rparr>)) (\<lambda>s1.
       if steps s1 > max_bucket_length s1 then
         (if so_size s1 = 0 then fail Division_by_zero
          else
            (let slot = h mod so_size s1 in
             if steps s1 \<ge> max_bucket_length s1 * 2
                \<or> n_items s1 \<ge> max_bucket_length s1 * so_size s1
             then bindO (expand nbuckets s1) (initialise_bucket (slot + nbuckets))
             else initialise_bucket (slot + nbuckets div 2) s1))
       else ok s1))"

text \<open>\<^verbatim>\<open>insert_node\<close>.\<close>

definition insert_node :: "hash_t \<Rightarrow> 'a \<Rightarrow> 'a solist \<Rightarrow> (error + bool \<times> 'a solist) option" where
  "insert_node h data s =
     (let nbuckets = so_size s in
      bindE (new_solist_node data h) (\<lambda>new_node.
        case alloc s new_node of
          (dnode, s0) \<Rightarrow>
            bindO (insert_loop h dnode s0) (\<lambda>(result, s1).
            bindO (if \<not> result then delete_obj s1 dnode else expansion_check h nbuckets s1)
              (\<lambda>s2. ok (result, zap s2)))))"

text \<open>\<^verbatim>\<open>cur->next.CAS(next, next, true)\<close>, the logical deletion of the node at \<^verbatim>\<open>cur\<close>.\<close>

definition mark_cur :: "'a solist \<Rightarrow> error + bool \<times> 'a solist" where
  "mark_cur s =
     (case deref s (cur s) of
        Inl e \<Rightarrow> Inl e
      | Inr (ca, c) \<Rightarrow>
          (case CAS_mark (nextp c) (nxt s) (nxt s) True of
             (marked, cell) \<Rightarrow> Inr (marked, store s ca (c\<lparr> nextp := cell \<rparr>))))"

text \<open>\<^verbatim>\<open>prev->next.CAS(cur, next)\<close>, the unlinking of the node at \<^verbatim>\<open>cur\<close>.\<close>

definition unlink_cur :: "'a solist \<Rightarrow> error + bool \<times> 'a solist" where
  "unlink_cur s =
     (case deref s (prev s) of
        Inl e \<Rightarrow> Inl e
      | Inr (pa, p) \<Rightarrow>
          (case CAS (nextp p) (cur s) (nxt s) of
             (unlinked, cell) \<Rightarrow> Inr (unlinked, store s pa (p\<lparr> nextp := cell \<rparr>))))"

text \<open>\<^verbatim>\<open>delete cur;\<close> (deleting the null pointer does nothing).\<close>

definition delete_cur :: "'a solist \<Rightarrow> (error + 'a solist) option" where
  "delete_cur s = (case cur s of None \<Rightarrow> ok s | Some a \<Rightarrow> delete_obj s a)"

text \<open>
  The loop of \<^verbatim>\<open>delete_node\<close>:
  \<^verbatim>\<open>while (true) { if (!find_node(hashv)) break;
       if (!cur->next.CAS(next, next, true)) continue;
       if (prev->next.CAS(cur, next)) { so_list->dec_item_count(); delete cur; result = true; break; } }\<close>
\<close>

partial_function (option) delete_loop ::
  "hash_t \<Rightarrow> 'a solist \<Rightarrow> (error + bool \<times> 'a solist) option" where
  "delete_loop h s =
     bindO (find_node h s) (\<lambda>(found, s1).
       if \<not> found then ok (False, s1)
       else
         bindE (mark_cur s1) (\<lambda>(marked, s2).
           if \<not> marked then delete_loop h s2
           else
             bindE (unlink_cur s2) (\<lambda>(unlinked, s3).
               if unlinked then
                 bindO (delete_cur (dec_item_count s3)) (\<lambda>s4. ok (True, s4))
               else delete_loop h s3)))"

definition delete_node :: "hash_t \<Rightarrow> 'a solist \<Rightarrow> (error + bool \<times> 'a solist) option" where
  "delete_node h s = bindO (delete_loop h s) (\<lambda>(result, s1). ok (result, zap s1))"

text \<open>
  \<^verbatim>\<open>find_item_node\<close>: the pointer to the payload of the node found is given as the
  address of the node. When \<^verbatim>\<open>find_node\<close> is false the function ends without a
  \<^verbatim>\<open>return\<close>, and the value the caller gets is not defined.
\<close>

definition find_item_node :: "hash_t \<Rightarrow> 'a solist \<Rightarrow> (error + addr \<times> 'a solist) option" where
  "find_item_node h s =
     bindO (find_node h s) (\<lambda>(found, s1).
       if found then
         bindE (deref s1 (cur s1)) (\<lambda>(ca, c).
           case payload c of
             None \<Rightarrow> fail Invalid_pointer
           | Some v \<Rightarrow> ok (ca, s1))
       else fail Missing_return)"

declare advance_while.simps [code]
declare initialise_bucket_loop.simps [code]
declare insert_loop.simps [code]
declare delete_loop.simps [code]

subsection \<open>Reading the list\<close>

text \<open>
  \<open>insert_all\<close> inserts the pairs of hash and value one after the other and collects
  the results; \<open>item_at\<close> reads the payload through the pointer \<open>find_item_node\<close>
  returns, and \<open>find_value\<close> is the two together.
\<close>

fun insert_all :: "(hash_t \<times> 'a) list \<Rightarrow> 'a solist \<Rightarrow> (error + bool list \<times> 'a solist) option" where
  "insert_all [] s = ok ([], s)"
| "insert_all ((h, v) # hvs) s =
     bindO (insert_node h v s) (\<lambda>(r, s1).
     bindO (insert_all hvs s1) (\<lambda>(rs, s2). ok (r # rs, s2)))"

definition item_at :: "'a solist \<Rightarrow> addr \<Rightarrow> 'a option" where
  "item_at s a = (case heap s a of None \<Rightarrow> None | Some n \<Rightarrow> payload n)"

definition find_value :: "hash_t \<Rightarrow> 'a solist \<Rightarrow> (error + 'a option) option" where
  "find_value h s = bindO (find_item_node h s) (\<lambda>(a, s1). ok (item_at s1 a))"


subsection \<open>The chain of nodes and its invariant\<close>

text \<open>What the heap holds at an address: the successor, the key, the mark, the kind.\<close>

type_synonym 'a heap = "addr \<Rightarrow> 'a solist_bucket option"

definition next_at :: "'a heap \<Rightarrow> addr \<Rightarrow> addr option" where
  "next_at h a = (case h a of None \<Rightarrow> None | Some n \<Rightarrow> mp_ptr (nextp n))"

definition key_at :: "'a heap \<Rightarrow> addr \<Rightarrow> so_key" where
  "key_at h a = (case h a of None \<Rightarrow> 0 | Some n \<Rightarrow> key n)"

definition marked_at :: "'a heap \<Rightarrow> addr \<Rightarrow> bool" where
  "marked_at h a = (case h a of None \<Rightarrow> False | Some n \<Rightarrow> mp_mark (nextp n))"

definition data_at :: "'a heap \<Rightarrow> addr \<Rightarrow> bool" where
  "data_at h a \<longleftrightarrow> (case h a of None \<Rightarrow> False | Some n \<Rightarrow> is_node n)"

text \<open>
  \<open>lseg h p as q\<close>: following the \<^verbatim>\<open>next\<close> pointers from \<open>p\<close> visits the allocated
  nodes at the addresses \<open>as\<close>, in this order, and arrives at \<open>q\<close>.
\<close>

fun lseg :: "'a heap \<Rightarrow> addr option \<Rightarrow> addr list \<Rightarrow> addr option \<Rightarrow> bool" where
  "lseg h p [] q \<longleftrightarrow> p = q"
| "lseg h p (a # as) q \<longleftrightarrow> p = Some a \<and> h a \<noteq> None \<and> lseg h (next_at h a) as q"

text \<open>
  \<open>chain_ok h p as\<close>: the chain from \<open>p\<close> to the null pointer is \<open>as\<close>, it is not empty,
  its keys are strictly increasing and no link of it is marked.
\<close>

definition chain_ok :: "'a heap \<Rightarrow> addr option \<Rightarrow> addr list \<Rightarrow> bool" where
  "chain_ok h p as \<longleftrightarrow> lseg h p as None \<and> as \<noteq> [] \<and> sorted_wrt (<) (map (key_at h) as)
     \<and> (\<forall>a\<in>set as. \<not> marked_at h a)"

text \<open>
  \<open>buckets_ok h bs as\<close>: an entry of the table that is not null points to a dummy node
  of the chain, and the key of that node is the key of the slot.
\<close>

definition buckets_ok :: "'a heap \<Rightarrow> addr option list \<Rightarrow> addr list \<Rightarrow> bool" where
  "buckets_ok h bs as \<longleftrightarrow> (\<forall>i<length bs. \<forall>a. bs ! i = Some a \<longrightarrow>
         a \<in> set as \<and> key_at h a = reverse_hasht_bits (of_nat i) \<and> \<not> data_at h a)"

text \<open>The number of data nodes among the nodes at \<open>as\<close>.\<close>

definition data_count :: "'a heap \<Rightarrow> addr list \<Rightarrow> nat" where
  "data_count h as = length (filter (data_at h) as)"

text \<open>
  The invariant of the list between two operations of one accessor, for the chain \<open>as\<close>
  that starts at \<^verbatim>\<open>buckets[0]\<close>: the chain is strictly increasing on the key with no
  marked link, the table has \<^verbatim>\<open>size\<close> entries, \<^verbatim>\<open>size\<close> is a power of two, the
  initialised buckets are dummy nodes of the chain with the key of their slot,
  \<^verbatim>\<open>n_items\<close> is the number of data nodes of the chain, and \<^verbatim>\<open>new\<close> gives out addresses
  that are not in use.
\<close>

definition sol_inv :: "'a solist \<Rightarrow> addr list \<Rightarrow> bool" where
  "sol_inv s as \<longleftrightarrow>
     chain_ok (heap s) (buckets s ! 0) as
   \<and> length (buckets s) = unat (so_size s)
   \<and> (\<exists>k<32. so_size s = 2 ^ k)
   \<and> buckets_ok (heap s) (buckets s) as
   \<and> n_items s = of_nat (data_count (heap s) as)
   \<and> (\<forall>a. heap s a \<noteq> None \<longrightarrow> a < fresh s)"

text \<open>\<open>same_list s s'\<close>: the two states differ in the fields of the accessor only.\<close>

definition same_list :: "'a solist \<Rightarrow> 'a solist \<Rightarrow> bool" where
  "same_list s s' \<longleftrightarrow> heap s' = heap s \<and> fresh s' = fresh s \<and> freed s' = freed s
     \<and> so_size s' = so_size s \<and> max_bucket_length s' = max_bucket_length s
     \<and> n_items s' = n_items s \<and> buckets s' = buckets s"

text \<open>\<open>at_pos s as i\<close>: \<^verbatim>\<open>cur\<close> is the node at index \<open>i\<close> of the chain and \<^verbatim>\<open>next\<close> its successor.\<close>

definition at_pos :: "'a solist \<Rightarrow> addr list \<Rightarrow> nat \<Rightarrow> bool" where
  "at_pos s as i \<longleftrightarrow> i < length as \<and> cur s = Some (as ! i) \<and> nxt s = next_at (heap s) (as ! i)"

section \<open>Reservation\<close>

lemma first_clear_mask:
  "j \<le> k \<Longrightarrow> k < 32 \<Longrightarrow> first_clear (mask k) (2 ^ j) j = (2 ^ k, k)"
proof (induction "k - j" arbitrary: j)
  case 0
  then have "j = k" by simp
  moreover have "(mask k :: 32 word) AND 2 ^ k = 0"
    by (simp add: and_exp_eq_0_iff_not_bit bit_mask_iff)
  ultimately show ?case by (subst first_clear.simps) simp
next
  case (Suc d)
  then have lt: "j < k" by simp
  with Suc.prems have "(mask k :: 32 word) AND 2 ^ j \<noteq> 0"
    by (simp add: and_exp_eq_0_iff_not_bit bit_mask_iff)
  moreover have "first_clear (mask k) (2 ^ Suc j) (Suc j) = (2 ^ k, k)"
    using Suc lt by (intro Suc.hyps) auto
  moreover have "push_bit 1 (2 ^ j :: 32 word) = 2 ^ Suc j"
    by (simp add: push_bit_eq_mult)
  ultimately show ?case
    using Suc.prems lt
    by (subst first_clear.simps) (simp add: NUM_HAZP_CHUNK_BLOCKS_def mult.commute)
qed

lemma mask_not_full: "k < 32 \<Longrightarrow> (mask k :: 32 word) \<noteq> FULL"
proof
  assume k: "k < 32" and "(mask k :: 32 word) = FULL"
  then have "bit (mask k :: 32 word) k = bit (- 1 :: 32 word) k" by (simp add: FULL_def)
  with k show False by (simp add: bit_mask_iff)
qed

lemma mask_32_full: "(mask 32 :: 32 word) = FULL"
  unfolding FULL_def by (rule bit_word_eqI) (simp add: bit_mask_iff)

lemma reserve_loop_mask:
  assumes "k < 32" "bitmap c = mask k"
  shows "reserve_loop c (mask k) None
    = Some (c\<lparr>bitmap := mask (Suc k)\<rparr>, Some (k * blk_size c))"
proof -
  have fc: "first_clear (mask k) 1 0 = (2 ^ k, k)"
    using first_clear_mask [of 0 k] assms by simp
  have fin: "reserve_loop (c\<lparr>bitmap := mask (Suc k)\<rparr>) (mask k) (Some (k * blk_size c))
      = Some (c\<lparr>bitmap := mask (Suc k)\<rparr>, Some (k * blk_size c))"
    by (subst reserve_loop.simps) simp
  have m: "(mask k :: 32 word) OR 2 ^ k = mask (Suc k)"
    by (simp add: mask_Suc_exp or.commute)
  show ?thesis
    using assms mask_not_full [of k] fin
    by (subst reserve_loop.simps)
       (simp add: fc compare_exchange_def NUM_HAZP_CHUNK_BLOCKS_def m)
qed

lemma reserve_impl_mask:
  assumes "k < 32" "bitmap c = mask k" "blk_size c = len"
  shows "reserve_impl c len = Some (c\<lparr>bitmap := mask (Suc k)\<rparr>, Some (k * len))"
  using assms reserve_loop_mask [of k c] by (simp add: reserve_impl_def)

lemma reserve_impl_full:
  "bitmap c = FULL \<Longrightarrow> reserve_impl c len = Some (c, None)"
  by (simp add: reserve_impl_def reserve_loop.simps)

lemma reserve_impl_mismatch:
  "len \<noteq> blk_size c \<Longrightarrow> reserve_impl c len = Some (c, None)"
  by (simp add: reserve_impl_def)

text \<open>
  A chunk at the head that cannot serve the request stops \<open>pools_reserve\<close> for good:
  the chunk is asked again and again.
\<close>

lemma pools_reserve_loop_stuck:
  assumes "pools_reserve_loop pools p blocklen reservation = Some y"
  shows "\<not> (p < length pools \<and> reservation = None
            \<and> reserve_impl (pools ! p) blocklen = Some (pools ! p, None))"
proof (rule pools_reserve_loop.raw_induct
    [where P = "\<lambda>pools p blocklen reservation y.
        \<not> (p < length pools \<and> reservation = None
            \<and> reserve_impl (pools ! p) blocklen = Some (pools ! p, None))",
     OF _ assms], goal_cases)
  case (1 f pools p blocklen reservation y)
  show ?case
  proof
    assume st: "p < length pools \<and> reservation = None
      \<and> reserve_impl (pools ! p) blocklen = Some (pools ! p, None)"
    with 1(2) have "f pools p blocklen None = Some y" by simp
    from 1(1)[OF this] st show False by simp
  qed
qed

lemma pools_reserve_stuck:
  assumes "reserve_impl c blocklen = Some (c, None)"
  shows "pools_reserve (c # pools) blocklen = None"
proof (cases "pools_reserve (c # pools) blocklen")
  case (Some y)
  then show ?thesis
    using pools_reserve_loop_stuck [of "c # pools" 0 blocklen None y] assms
    by (simp add: pools_reserve_def)
qed simp

lemma reserve_stuck:
  assumes "pools_head d = c # pools" "reserve_impl c blocklen = Some (c, None)"
  shows "reserve d blocklen = None"
  using pools_reserve_stuck [OF assms(2), of pools] assms(1) by (simp add: reserve_def)

lemma pools_reserve_empty: "pools_reserve [] blocklen = Some ([], None)"
  by (simp add: pools_reserve_def pools_reserve_loop.simps)

lemma pools_reserve_head:
  assumes "reserve_impl c blocklen = Some (c', Some r)"
  shows "pools_reserve (c # pools) blocklen
    = Some (c' # pools, Some (Block (length pools) r))"
proof -
  have "pools_reserve_loop (c' # pools) 0 blocklen (Some (Block (length pools) r))
      = Some (c' # pools, Some (Block (length pools) r))"
    by (subst pools_reserve_loop.simps) simp
  then show ?thesis
    using assms unfolding pools_reserve_def
    by (subst pools_reserve_loop.simps) simp
qed

lemma reserve_new_domain:
  "reserve new_domain blocklen
    = Some (Inr (Block 0 0, \<lparr>pools_head = [chunk_with blocklen 1], delete_head = []\<rparr>))"
proof -
  have "reserve_impl (new_hazp_chunk blocklen) blocklen
      = Some ((new_hazp_chunk blocklen)\<lparr>bitmap := mask (Suc 0)\<rparr>, Some (0 * blocklen))"
    by (rule reserve_impl_mask) (simp_all add: new_hazp_chunk_def)
  then show ?thesis
    by (simp add: reserve_def new_domain_def pools_reserve_empty pools_new_def
        pools_reserve_head chunk_with_def)
qed

lemma reserve_chunk_with:
  assumes "k < 32"
  shows "reserve \<lparr>pools_head = [chunk_with blocklen k], delete_head = []\<rparr> blocklen
    = Some (Inr (Block 0 (k * blocklen),
                 \<lparr>pools_head = [chunk_with blocklen (Suc k)], delete_head = []\<rparr>))"
proof -
  have "reserve_impl (chunk_with blocklen k) blocklen
      = Some ((chunk_with blocklen k)\<lparr>bitmap := mask (Suc k)\<rparr>, Some (k * blocklen))"
    using assms by (intro reserve_impl_mask) (simp_all add: chunk_with_def new_hazp_chunk_def)
  then show ?thesis
    by (simp add: reserve_def pools_reserve_head chunk_with_def)
qed

lemma reserve_many_one_chunk:
  "n < 32 \<Longrightarrow> reserve_many (Suc n) blocklen new_domain
     = Some (Inr (map (\<lambda>i. Block 0 (i * blocklen)) [0..<Suc n],
                  \<lparr>pools_head = [chunk_with blocklen (Suc n)], delete_head = []\<rparr>))"
proof (induction n)
  case 0
  show ?case by (simp add: reserve_new_domain)
next
  case (Suc n)
  then show ?case
    using reserve_chunk_with [of "Suc n" blocklen] by simp
qed

lemma reserve_full_chunk_diverges:
  "reserve \<lparr>pools_head = [chunk_with blocklen 32], delete_head = []\<rparr> blocklen = None"
  by (rule reserve_stuck [where c = "chunk_with blocklen 32" and pools = "[]"])
     (simp_all add: reserve_impl_full chunk_with_def mask_32_full)

lemma reserve_other_block_size_diverges:
  "reserve \<lparr>pools_head = [chunk_with 1 1], delete_head = []\<rparr> 2 = None"
  by (rule reserve_stuck [where c = "chunk_with 1 1" and pools = "[]"])
     (simp_all add: reserve_impl_mismatch chunk_with_def new_hazp_chunk_def)

text \<open>
  Claim C1 (reserve always returns a block, allocating a second chunk when the first is
  used up). On the code this fails: the first 32 reservations of a block length from a
  new domain are served by one chunk, every block of which is then reserved, and the
  33rd call of \<open>reserve\<close> does not return, because \<open>pools_reserve\<close> never leaves the
  full chunk at the head of the list. No second chunk is ever allocated.
\<close>

theorem reserve_beyond_one_chunk_diverges:
  "reserve_many 32 blocklen new_domain =
     Some (Inr (map (\<lambda>i. Block 0 (i * blocklen)) [0..<32],
                \<lparr>pools_head = [chunk_with blocklen 32], delete_head = []\<rparr>))
   \<and> reserve_many 33 blocklen new_domain = None"
proof -
  have a: "reserve_many (Suc 31) blocklen new_domain =
     Some (Inr (map (\<lambda>i. Block 0 (i * blocklen)) [0..<Suc 31],
                \<lparr>pools_head = [chunk_with blocklen (Suc 31)], delete_head = []\<rparr>))"
    by (rule reserve_many_one_chunk) simp
  have "reserve_many (Suc (Suc 31)) blocklen new_domain = None"
    unfolding reserve_many.simps(2) [of "Suc 31"] a
    using reserve_full_chunk_diverges [of blocklen] by simp
  with a show ?thesis by simp
qed

section \<open>The snapshot\<close>




lemma maskoff_zero: "0 AND mark_bits_maskoff = 0"
  by simp








lemma one_pinned_snapshot_eq:
  "new_hazard_pointers_snapshot one_pinned_domain = Inr one_pinned_snapshot"
  by code_simp



section \<open>Reclaiming a full retire buffer\<close>

lemma skip_live_passed:
  "ixd \<le> i \<Longrightarrow> i < skip_live del ixd ixs \<Longrightarrow> del ! i \<noteq> 0"
proof (induction del ixd ixs rule: skip_live.induct)
  case (1 del ixd ixs)
  show ?case
  proof (cases "del ! ixd \<noteq> 0 \<and> ixd < ixs")
    case True
    then have eq: "skip_live del ixd ixs = skip_live del (ixd + 1) ixs"
      by (subst skip_live.simps) simp
    show ?thesis
    proof (cases "i = ixd")
      case False
      with 1 True eq show ?thesis by simp
    qed (use True in simp)
  next
    case False
    then have "skip_live del ixd ixs = ixd" by (subst skip_live.simps) auto
    with 1 show ?thesis by simp
  qed
qed

lemma skip_null_passed:
  "skip_null del ixd ixs < i \<Longrightarrow> i \<le> ixs \<Longrightarrow> del ! i = 0"
proof (induction del ixd ixs rule: skip_null.induct)
  case (1 del ixd ixs)
  show ?case
  proof (cases "del ! ixs = 0 \<and> ixd < ixs")
    case True
    then have eq: "skip_null del ixd ixs = skip_null del ixd (ixs - 1)"
      by (subst skip_null.simps) simp
    show ?thesis
    proof (cases "i = ixs")
      case False
      with 1 True eq show ?thesis by simp
    qed (use True in simp)
  next
    case False
    then have "skip_null del ixd ixs = ixs" by (subst skip_null.simps) auto
    with 1 show ?thesis by simp
  qed
qed

lemma compact_partitions:
  assumes "ixs < length del" "ixd \<le> ixs + 1"
    "\<forall>i<ixd. del ! i \<noteq> 0" "\<forall>i. ixs < i \<and> i < length del \<longrightarrow> del ! i = 0"
  shows "length (compact del ixd ixs) = length del \<and> mset (compact del ixd ixs) = mset del
    \<and> (\<exists>m. partitioned (compact del ixd ixs) m)"
  using assms
proof (induction "ixs - ixd" arbitrary: del ixd ixs rule: less_induct)
  case less
  show ?case
  proof (cases "ixd < ixs")
    case False
    then have eq: "compact del ixd ixs = del" by (subst compact.simps) simp
    have "partitioned del (if ixd \<le> ixs \<and> del ! ixd \<noteq> 0 then ixd + 1 else ixd)"
      using False less.prems unfolding partitioned_def
      by (auto simp: less_Suc_eq not_less le_Suc_eq elim: le_neq_implies_less [rotated, elim_format])
         (metis le_neq_implies_less)+
    then show ?thesis unfolding eq by blast
  next
    case True
    define ixd' where "ixd' = skip_live del ixd ixs"
    define ixs' where "ixs' = skip_null del ixd' ixs"
    have a: "ixd \<le> ixd'" "ixd' \<le> ixs"
      using skip_live_bounds [of ixd ixs del] True by (auto simp: ixd'_def)
    have b: "ixd' \<le> ixs'" "ixs' \<le> ixs"
      using skip_null_bounds [of ixd' ixs del] a by (auto simp: ixs'_def)
    have live: "\<forall>i<ixd'. del ! i \<noteq> 0"
      using skip_live_passed [of ixd _ del ixs] less.prems(3) unfolding ixd'_def
      by (metis leI)
    have null: "\<forall>i. ixs' < i \<and> i < length del \<longrightarrow> del ! i = 0"
      using skip_null_passed [of del ixd' ixs] less.prems(4) unfolding ixs'_def
      by (metis leI)
    show ?thesis
    proof (cases "del ! ixs' \<noteq> 0 \<and> del ! ixd' = 0")
      case swap: True
      then have lt: "ixd' < ixs'" using b by (cases "ixd' = ixs'") auto
      define del' where "del' = del[ixs' := del ! ixd', ixd' := del ! ixs']"
      have eq: "compact del ixd ixs = compact del' (ixd' + 1) (ixs' - 1)"
        using True swap
        by (subst compact.simps) (simp add: Let_def ixd'_def ixs'_def del'_def)
      have len: "length del' = length del" by (simp add: del'_def)
      have ms: "mset del' = mset del"
        unfolding del'_def using lt b less.prems(1) by (intro mset_swap) auto
      have "length (compact del' (ixd' + 1) (ixs' - 1)) = length del'
        \<and> mset (compact del' (ixd' + 1) (ixs' - 1)) = mset del'
        \<and> (\<exists>m. partitioned (compact del' (ixd' + 1) (ixs' - 1)) m)"
      proof (rule less.hyps)
        show "ixs' - 1 - (ixd' + 1) < ixs - ixd" using a b lt by simp
        show "ixs' - 1 < length del'" using b less.prems(1) len by simp
        show "ixd' + 1 \<le> ixs' - 1 + 1" using lt by simp
        show "\<forall>i<ixd' + 1. del' ! i \<noteq> 0"
          using live swap lt b less.prems(1) by (auto simp: del'_def nth_list_update less_Suc_eq)
        show "\<forall>i. ixs' - 1 < i \<and> i < length del' \<longrightarrow> del' ! i = 0"
          using null swap lt b less.prems(1)
          by (auto simp: del'_def nth_list_update) 
      qed
      then show ?thesis unfolding eq len ms .
    next
      case noswap: False
      have same: "ixs' = ixd'"
      proof (rule ccontr)
        assume "ixs' \<noteq> ixd'"
        with b have lt: "ixd' < ixs'" by simp
        then have "del ! ixs' \<noteq> 0" using skip_null_stops [of ixd' del ixs] by (simp add: ixs'_def)
        moreover have "del ! ixd' = 0"
          using skip_live_stops [of del ixd ixs] lt b by (simp add: ixd'_def)
        ultimately show False using noswap by simp
      qed
      have eq: "compact del ixd ixs = compact del ixd' ixs'"
        using True noswap
        by (subst compact.simps) (auto simp add: Let_def ixd'_def ixs'_def)
      have eq2: "compact del ixd' ixs' = del"
        using same by (subst compact.simps) simp
      have "partitioned del (if del ! ixd' \<noteq> 0 then ixd' + 1 else ixd')"
        using live null same a less.prems(1) unfolding partitioned_def
        by (auto simp: less_Suc_eq not_less le_Suc_eq) (metis le_neq_implies_less)+
      then show ?thesis unfolding eq eq2 by blast
    qed
  qed
qed

lemma reclaim_scan:
  "n \<le> length (deleted ctx) \<Longrightarrow>
   fold (reclaim_step hps) [0..<n] (ctx, fr) =
     (ctx\<lparr>del_index := del_index ctx
              - of_nat (length (filter (\<lambda>p. \<not> search hps p) (take n (deleted ctx)))),
          deleted := map (\<lambda>p. if search hps p then p else 0) (take n (deleted ctx))
              @ drop n (deleted ctx)\<rparr>,
      fr @ filter (\<lambda>p. \<not> search hps p) (take n (deleted ctx)))"
proof (induction n)
  case 0
  show ?case by simp
next
  case (Suc n)
  then have n: "n < length (deleted ctx)" by simp
  have nth: "(map (\<lambda>p. if search hps p then p else 0) (take n (deleted ctx))
      @ drop n (deleted ctx)) ! n = deleted ctx ! n"
    using n by (simp add: nth_append)
  have upd: "(map (\<lambda>p. if search hps p then p else 0) (take n (deleted ctx))
      @ drop n (deleted ctx))[n := 0]
      = map (\<lambda>p. if search hps p then p else 0) (take n (deleted ctx))
        @ 0 # drop (Suc n) (deleted ctx)"
    using n by (simp add: list_update_append Cons_nth_drop_Suc [symmetric])
  have dr: "drop n (deleted ctx) = deleted ctx ! n # drop (Suc n) (deleted ctx)"
    using n by (simp add: Cons_nth_drop_Suc)
  show ?case
    using Suc.IH n
    by (simp add: reclaim_step_def nth upd take_Suc_conv_app_nth) (simp add: dr)
qed

lemma enqueue_scan:
  "n \<le> length items \<Longrightarrow>
   fold enqueue_step [0..<n] (d, items) =
     (d\<lparr>delete_head := rev (filter (\<lambda>p. p \<noteq> 0) (take n items)) @ delete_head d\<rparr>,
      replicate n 0 @ drop n items)"
proof (induction n)
  case 0
  show ?case by simp
next
  case (Suc n)
  then have n: "n < length items" by simp
  have nth: "(replicate n 0 @ drop n items) ! n = items ! n"
    using n by (simp add: nth_append)
  have upd: "(replicate n 0 @ drop n items)[n := 0] = replicate n 0 @ 0 # drop (Suc n) items"
    using n by (simp add: list_update_append Cons_nth_drop_Suc [symmetric])
  have dr: "drop n items = items ! n # drop (Suc n) items"
    using n by (simp add: Cons_nth_drop_Suc)
  show ?case
    using Suc.IH n
    by (simp add: enqueue_step_def enqueue_for_delete_def nth upd take_Suc_conv_app_nth
        replicate_app_Cons_same)
       (simp add: dr replicate_append_same)
qed


lemma partitioned_count:
  "partitioned del m \<Longrightarrow> length (filter (\<lambda>p. p \<noteq> 0) del) = m
     \<and> filter (\<lambda>p. p \<noteq> 0) del = take m del"
proof -
  assume p: "partitioned del m"
  have d: "del = take m del @ drop m del" by simp
  have a: "filter (\<lambda>p. p \<noteq> 0) (take m del) = take m del"
    using p by (auto simp: partitioned_def filter_id_conv in_set_conv_nth)
  have b: "filter (\<lambda>p. p \<noteq> 0) (drop m del) = []"
    using p by (auto simp: partitioned_def filter_empty_conv in_set_conv_nth)
  have "filter (\<lambda>p. p \<noteq> 0) del
      = filter (\<lambda>p. p \<noteq> 0) (take m del) @ filter (\<lambda>p. p \<noteq> 0) (drop m del)"
    by (subst d) (simp only: filter_append)
  with a b have "filter (\<lambda>p. p \<noteq> 0) del = take m del" by simp
  moreover have "length (take m del) = m" using p by (simp add: partitioned_def)
  ultimately show ?thesis by simp
qed

lemma filter_nulled:
  "\<forall>p\<in>set xs. p \<noteq> (0 :: hazptr) \<Longrightarrow>
   filter (\<lambda>p. p \<noteq> 0) (map (\<lambda>p. if P p then p else 0) xs) = filter P xs"
  by (induction xs) auto

text \<open>
  Claim C9: \<^verbatim>\<open>reclaim\<close> on a full retire buffer of \<open>R\<close> non-null pointers (the
  buffer is full when \<^verbatim>\<open>del_index == R\<close>), with the snapshot \<open>hps\<close> of the domain.
  Exactly the pointers the snapshot does not hold are freed. If it holds all of them,
  every one of the \<open>R\<close> pointers is pushed on the delete list of the domain once, the
  buffer is nulled and \<^verbatim>\<open>del_index\<close> is 0. Otherwise the domain is unchanged,
  \<^verbatim>\<open>del_index\<close> is the number of surviving pointers, and these are the entries
  \<^verbatim>\<open>deleted[0 .. del_index)\<close>, with null in every later entry.
\<close>

theorem reclaim_full_buffer:
  assumes full: "unat (del_index ctx) = length (deleted ctx)"
    and nonnull: "\<forall>p\<in>set (deleted ctx). p \<noteq> 0"
    and snap: "new_hazard_pointers_snapshot domain = Inr hps"
  shows "\<exists>domain' ctx' freed. reclaim domain ctx = Inr (domain', ctx', freed)
    \<and> freed = filter (\<lambda>p. \<not> search hps p) (deleted ctx)
    \<and> length (deleted ctx') = length (deleted ctx)
    \<and> (if \<forall>p\<in>set (deleted ctx). search hps p
        then delete_head domain' = rev (deleted ctx) @ delete_head domain
           \<and> pools_head domain' = pools_head domain
           \<and> del_index ctx' = 0
           \<and> (\<forall>i<length (deleted ctx'). deleted ctx' ! i = 0)
        else domain' = domain
           \<and> unat (del_index ctx') = length (filter (search hps) (deleted ctx))
           \<and> mset (take (unat (del_index ctx')) (deleted ctx')) = mset (filter (search hps) (deleted ctx))
           \<and> (\<forall>i<unat (del_index ctx'). deleted ctx' ! i \<noteq> 0)
           \<and> (\<forall>i. unat (del_index ctx') \<le> i \<and> i < length (deleted ctx') \<longrightarrow> deleted ctx' ! i = 0))"
proof -
  define R where "R = length (deleted ctx)"
  define freed where "freed = filter (\<lambda>p. \<not> search hps p) (deleted ctx)"
  define del1 where "del1 = map (\<lambda>p. if search hps p then p else 0) (deleted ctx)"
  define ctx1 where "ctx1 = ctx\<lparr>del_index := del_index ctx - of_nat (length freed), deleted := del1\<rparr>"
  have scan: "fold (reclaim_step hps) [0..<R] (ctx, []) = (ctx1, freed)"
    using reclaim_scan [of R ctx hps "[]"] by (simp add: R_def ctx1_def freed_def del1_def)
  have "unat (del_index ctx) < 2 ^ 32" using unsigned_less [of "del_index ctx"] by simp
  then have Rb: "R < 2 ^ 32" using full by (simp add: R_def)
  have fl: "length freed \<le> R" by (simp add: freed_def R_def)
  have di: "del_index ctx = of_nat R" using full by (simp add: R_def [symmetric]) (metis of_nat_unat ucast_id)
  have "del_index ctx1 = of_nat (R - length freed)"
    using fl by (simp add: ctx1_def di)
  then have u1: "unat (del_index ctx1) = R - length freed"
    using Rb by (simp add: unat_of_nat)
  have len1: "length del1 = R" by (simp add: del1_def R_def)
  have dc1: "deleted ctx1 = del1" by (simp add: ctx1_def)
  have surv: "length (filter (search hps) (deleted ctx)) = R - length freed"
    using sum_length_filter_compl [of "search hps" "deleted ctx"] by (simp add: freed_def R_def)
  have nz1: "filter (\<lambda>p. p \<noteq> 0) del1 = filter (search hps) (deleted ctx)"
    using nonnull unfolding del1_def by (rule filter_nulled)
  show ?thesis
  proof (cases "\<forall>p\<in>set (deleted ctx). search hps p")
    case True
    then have f0: "freed = []" by (simp add: freed_def filter_empty_conv)
    have d1: "del1 = deleted ctx" using True by (simp add: del1_def map_idI)
    have enq: "enqueue_all_for_delete domain del1 R =
      (domain\<lparr>delete_head := rev (deleted ctx) @ delete_head domain\<rparr>, replicate R 0)"
      using enqueue_scan [of R del1 domain] nonnull len1
      by (simp add: enqueue_all_for_delete_def d1 filter_id_conv)
    have "reclaim domain ctx = Inr (domain\<lparr>delete_head := rev (deleted ctx) @ delete_head domain\<rparr>,
        ctx1\<lparr>deleted := replicate R 0, del_index := 0\<rparr>, freed)"
      using snap scan u1 f0 enq by (simp add: reclaim_def R_def [symmetric] dc1)
    then show ?thesis using True f0 by (simp add: freed_def [symmetric] R_def)
  next
    case False
    then have fne: "freed \<noteq> []" by (auto simp: freed_def filter_empty_conv)
    then have lt: "0 < length freed" by simp
    have Rpos: "0 < R" using fl lt by linarith
    have ne: "unat (del_index ctx1) \<noteq> R" using u1 lt Rpos by linarith
    define del2 where "del2 = compact del1 0 (R - 1)"
    have rc: "reclaim domain ctx = Inr (domain, ctx1\<lparr>deleted := del2\<rparr>, freed)"
      using snap scan ne Rpos by (simp add: reclaim_def R_def [symmetric] del2_def dc1)
    have cp: "length del2 = length del1 \<and> mset del2 = mset del1 \<and> (\<exists>m. partitioned del2 m)"
      unfolding del2_def using len1 Rpos by (intro compact_partitions) auto
    then obtain m where m: "partitioned del2 m" by blast
    have "filter (\<lambda>p. p \<noteq> 0) del2 = take m del2" "length (filter (\<lambda>p. p \<noteq> 0) del2) = m"
      using partitioned_count [OF m] by blast+
    moreover have "mset (filter (\<lambda>p. p \<noteq> 0) del2) = mset (filter (\<lambda>p. p \<noteq> 0) del1)"
      using cp by simp
    ultimately have mm: "mset (take m del2) = mset (filter (search hps) (deleted ctx))"
      and "m = length (filter (search hps) (deleted ctx))"
      using nz1 by (simp_all, metis size_mset)
    then have meq: "m = unat (del_index ctx1)" using u1 surv by simp
    show ?thesis
      using rc False m mm meq cp len1 u1 surv
      by (auto simp: freed_def [symmetric] R_def partitioned_def ctx1_def)
  qed
qed

lemma one_pinned_search:
  "search one_pinned_snapshot 4096" "\<not> search one_pinned_snapshot 8192"
  "\<not> search one_pinned_snapshot 12288"
  by code_simp+

text \<open>
  The theorem of claim C9 at a buffer of three pointers of which one is protected: two are
  freed, the protected one is moved to the front.
\<close>

theorem reclaim_full_buffer_witness:
  "\<exists>domain' ctx' freed.
     reclaim one_pinned_domain mixed_context = Inr (domain', ctx', freed)
     \<and> freed = [8192, 12288] \<and> domain' = one_pinned_domain
     \<and> unat (del_index ctx') = 1 \<and> mset (take 1 (deleted ctx')) = {#4096#}
     \<and> deleted ctx' ! 1 = 0 \<and> deleted ctx' ! 2 = 0"
proof -
  have full: "unat (del_index mixed_context) = length (deleted mixed_context)"
    by (simp add: mixed_context_def)
  have nonnull: "\<forall>p\<in>set (deleted mixed_context). p \<noteq> 0"
    by (simp add: mixed_context_def)
  show ?thesis
    using reclaim_full_buffer [OF full nonnull one_pinned_snapshot_eq] one_pinned_search
    by (auto simp: mixed_context_def)
qed

section \<open>The split-ordered list: results of the operations\<close>

lemma bindE_Inr [simp]: "bindE (Inr x) f = f x"
  by (simp add: bindE_def)

lemma bindE_Inl [simp]: "bindE (Inl e) f = Some (Inl e)"
  by (simp add: bindE_def)

lemma bindO_ok [simp]: "bindO (ok x) f = f x"
  by (simp add: bindO_def ok_def)

lemma bindO_Some_Inr [simp]: "bindO (Some (Inr x)) f = f x"
  by (simp add: bindO_def)

lemma bindO_None [simp]: "bindO None f = None"
  by (simp add: bindO_def)

lemma bindE_Inr_iff:
  "bindE m f = Some (Inr y) \<longleftrightarrow> (\<exists>x. m = Inr x \<and> f x = Some (Inr y))"
  by (cases m) (simp_all add: bindE_def)

lemma bindO_Inr_iff:
  "bindO m f = Some (Inr y) \<longleftrightarrow> (\<exists>x. m = Some (Inr x) \<and> f x = Some (Inr y))"
  by (cases m) (auto simp: bindO_def bindE_Inr_iff)

lemma ok_Inr_iff [simp]: "ok x = Some (Inr y) \<longleftrightarrow> x = y"
  by (simp add: ok_def)

lemma fail_not_Inr [simp]: "fail e \<noteq> Some (Inr y)"
  by (simp add: fail_def)

section \<open>The scan of \<^verbatim>\<open>get_parent\<close>\<close>






section \<open>Runs of the list operations\<close>

text \<open>
  Claim C6. On the list made with size 2 and bucket length 2, the inserts of the hashes
  0, 2, 4 and 6 all succeed; after them the size of the table is 4, \<^verbatim>\<open>buckets[2]\<close> is
  not null, and \<^verbatim>\<open>find_item_node\<close> finds each of the four hashes with the value
  inserted for it.
\<close>

theorem forced_expansion:
  "bindO (bindE (new_solist 2 2) (insert_all [(0, 100 :: nat), (2, 102), (4, 104), (6, 106)]))
     (\<lambda>(rs, s). ok (rs, so_size s, bucket_at s 2 \<noteq> Inr None,
                     map (\<lambda>h. find_value h s) [0, 2, 4, 6]))
   = ok ([True, True, True, True], 4, True,
         [ok (Some 100), ok (Some 102), ok (Some 104), ok (Some 106)])"
  by code_simp

text \<open>
  Claim C4 says that \<^verbatim>\<open>find_item_node\<close> of a hash that is not in the list returns
  null. In the code the function returns inside \<^verbatim>\<open>if (find_node(hashv))\<close> only: after
  \<^verbatim>\<open>insert_node(5, 50)\<close> and \<^verbatim>\<open>delete_node(5)\<close>, which both return true,
  \<^verbatim>\<open>find_item_node(5)\<close> reaches the end of the function without a value to return.
\<close>

theorem find_after_remove_has_no_result:
  "bindO (bindE (new_solist 2 4) (insert_node 5 (50 :: nat))) (\<lambda>(inserted, s).
     bindO (delete_node 5 s) (\<lambda>(removed, s1).
       ok (inserted, removed, map_option (map_sum id fst) (find_item_node 5 s1))))
   = ok (True, True, Some (Inl Missing_return))"
  by code_simp

section \<open>Chains of nodes\<close>

lemma lseg_append:
  "lseg h p (as @ bs) q \<longleftrightarrow> (\<exists>r. lseg h p as r \<and> lseg h r bs q)"
  by (induction as arbitrary: p) auto

lemma lseg_frame:
  "(\<And>a. a \<in> set as \<Longrightarrow> (h' a = None \<longleftrightarrow> h a = None) \<and> next_at h' a = next_at h a)
   \<Longrightarrow> lseg h' p as q = lseg h p as q"
  by (induction as arbitrary: p) auto

lemma lseg_frame_sub:
  "lseg h p as q \<Longrightarrow> (\<And>a. a \<in> set as \<Longrightarrow> h' a \<noteq> None \<and> next_at h' a = next_at h a)
   \<Longrightarrow> lseg h' p as q"
  by (induction as arbitrary: p) auto

lemma lseg_allocated: "lseg h p as q \<Longrightarrow> a \<in> set as \<Longrightarrow> h a \<noteq> None"
  by (induction as arbitrary: p) auto

lemma lseg_unique: "lseg h p as None \<Longrightarrow> lseg h p bs None \<Longrightarrow> as = bs"
proof (induction as arbitrary: p bs)
  case Nil
  then show ?case by (cases bs) auto
next
  case (Cons a as)
  then show ?case by (cases bs) auto
qed

lemma lseg_distinct:
  assumes "lseg h p as None"
  shows "distinct as"
  using assms
proof (induction as arbitrary: p)
  case Nil
  show ?case by simp
next
  case (Cons a as)
  then have tl: "lseg h (next_at h a) as None" and d: "distinct as" by auto
  have "a \<notin> set as"
  proof
    assume "a \<in> set as"
    then obtain xs ys where s: "as = xs @ a # ys" by (auto simp: in_set_conv_decomp)
    with tl obtain r where "lseg h r (a # ys) None" by (auto simp: lseg_append)
    then have "lseg h (next_at h a) ys None" by simp
    with tl have "as = ys" by (rule lseg_unique)
    with s show False by simp
  qed
  with d show ?case by simp
qed

lemma lseg_nth:
  "lseg h p as q \<Longrightarrow> i < length as \<Longrightarrow>
     h (as ! i) \<noteq> None \<and> next_at h (as ! i) = (if Suc i < length as then Some (as ! Suc i) else q)"
proof (induction as arbitrary: p i)
  case Nil
  then show ?case by simp
next
  case (Cons a as)
  show ?case
  proof (cases i)
    case 0
    with Cons.prems show ?thesis by (cases as) auto
  next
    case (Suc j)
    with Cons show ?thesis by auto
  qed
qed

lemma lseg_head: "lseg h p as q \<Longrightarrow> as \<noteq> [] \<Longrightarrow> p = Some (as ! 0)"
  by (cases as) auto

lemma lseg_insert:
  assumes ch: "lseg h p as None" and i: "i < length as" and d: "d \<notin> set as"
    and hd: "h' d \<noteq> None" "next_at h' d = next_at h (as ! i)"
    and hc: "h' (as ! i) \<noteq> None" "next_at h' (as ! i) = Some d"
    and fr: "\<And>a. a \<in> set as \<Longrightarrow> a \<noteq> as ! i \<Longrightarrow> h' a \<noteq> None \<and> next_at h' a = next_at h a"
  shows "lseg h' p (take (Suc i) as @ d # drop (Suc i) as) None"
proof -
  have dist: "distinct as" using ch by (rule lseg_distinct)
  have sp: "as = take i as @ as ! i # drop (Suc i) as" using i by (rule id_take_nth_drop)
  with ch obtain r where a: "lseg h p (take i as) r" and b: "lseg h r (as ! i # drop (Suc i) as) None"
    by (metis lseg_append)
  from b have r: "r = Some (as ! i)" and c: "lseg h (next_at h (as ! i)) (drop (Suc i) as) None"
    by auto
  have notin1: "as ! i \<notin> set (take i as)" and notin2: "as ! i \<notin> set (drop (Suc i) as)"
    using dist i by (auto simp: in_set_conv_nth nth_eq_iff_index_eq)
  have a': "lseg h' p (take i as) (Some (as ! i))"
    unfolding r [symmetric]
    using a by (rule lseg_frame_sub) (use notin1 fr in \<open>auto dest: in_set_takeD\<close>)
  have c': "lseg h' (next_at h (as ! i)) (drop (Suc i) as) None"
    using c by (rule lseg_frame_sub) (use notin2 fr in \<open>auto dest: in_set_dropD\<close>)
  have "lseg h' p (take i as @ as ! i # d # drop (Suc i) as) None"
    unfolding lseg_append using a' c' hd hc by auto
  moreover have "take (Suc i) as = take i as @ [as ! i]"
    using i by (rule take_Suc_conv_app_nth)
  ultimately show ?thesis by simp
qed

lemma lseg_remove:
  assumes ch: "lseg h p as None" and i: "0 < i" "i < length as"
    and hp: "h' (as ! (i - 1)) \<noteq> None" "next_at h' (as ! (i - 1)) = next_at h (as ! i)"
    and fr: "\<And>a. a \<in> set as \<Longrightarrow> a \<noteq> as ! (i - 1) \<Longrightarrow> a \<noteq> as ! i
               \<Longrightarrow> h' a \<noteq> None \<and> next_at h' a = next_at h a"
  shows "lseg h' p (take i as @ drop (Suc i) as) None"
proof -
  have dist: "distinct as" using ch by (rule lseg_distinct)
  define j where "j = i - 1"
  have j: "Suc j = i" "j < length as" using i by (auto simp: j_def)
  have sp: "as = take j as @ as ! j # as ! i # drop (Suc i) as"
    using j i by (metis Cons_nth_drop_Suc id_take_nth_drop)
  with ch obtain r where a: "lseg h p (take j as) r"
    and b: "lseg h r (as ! j # as ! i # drop (Suc i) as) None"
    by (metis lseg_append)
  from b have r: "r = Some (as ! j)" and c: "lseg h (next_at h (as ! i)) (drop (Suc i) as) None"
    by auto
  have ne: "as ! j \<noteq> as ! i" using dist j i by (simp add: nth_eq_iff_index_eq)
  have n1: "as ! j \<notin> set (take j as)" "as ! i \<notin> set (take j as)"
    using dist j i by (auto simp: in_set_conv_nth nth_eq_iff_index_eq)
  have n2: "as ! j \<notin> set (drop (Suc i) as)" "as ! i \<notin> set (drop (Suc i) as)"
    using dist j i by (auto simp: in_set_conv_nth nth_eq_iff_index_eq)
  have fr': "\<And>a. a \<in> set as \<Longrightarrow> a \<noteq> as ! j \<Longrightarrow> a \<noteq> as ! i
               \<Longrightarrow> h' a \<noteq> None \<and> next_at h' a = next_at h a"
    using fr by (simp add: j_def)
  have a': "lseg h' p (take j as) (Some (as ! j))"
    unfolding r [symmetric]
    using a by (rule lseg_frame_sub) (use n1 fr' in \<open>auto dest: in_set_takeD\<close>)
  have c': "lseg h' (next_at h (as ! i)) (drop (Suc i) as) None"
    using c by (rule lseg_frame_sub) (use n2 fr' in \<open>auto dest: in_set_dropD\<close>)
  have "lseg h' p (take j as @ as ! j # drop (Suc i) as) None"
    unfolding lseg_append using a' c' hp unfolding j_def [symmetric] by auto
  moreover have "take i as = take j as @ [as ! j]"
    using j take_Suc_conv_app_nth [of j as] by simp
  ultimately show ?thesis by simp
qed

section \<open>Keys in split order\<close>

lemma reverse_zero [simp]: "reverse_hasht_bits 0 = 0"
  unfolding reverse_hasht_bits_def by (rule bit_word_eqI) (simp add: bit_word_reverse_iff)

lemma reverse_inj: "reverse_hasht_bits a = reverse_hasht_bits b \<Longrightarrow> a = b"
  unfolding reverse_hasht_bits_def by (rule word_eq_reverseI)

lemma and_databit_zero_iff: "x AND DATABIT = 0 \<longleftrightarrow> \<not> bit x 0" for x :: "32 word"
  by (simp add: DATABIT_def and_one_eq bit_0 even_iff_mod_2_eq_zero)

lemma node_key_odd: "sol_node_key h AND DATABIT = DATABIT"
  by (simp add: sol_node_key_def DATABIT_def)

lemma is_node_node_key: "key n = sol_node_key h \<Longrightarrow> is_node n"
  by (simp add: is_node_def node_key_odd)

lemma reverse_mod_le:
  assumes "k < 32"
  shows "reverse_hasht_bits (h mod 2 ^ k) \<le> reverse_hasht_bits h"
proof -
  have "h mod 2 ^ k = take_bit k h" by (simp add: take_bit_eq_mod)
  moreover have "word_reverse (take_bit k h) = word_reverse h AND NOT (mask (32 - k))"
    using assms
    by (intro bit_word_eqI) (auto simp: bit_word_reverse_iff bit_take_bit_iff bit_and_iff bit_not_iff bit_mask_iff)
  ultimately show ?thesis
    by (simp add: reverse_hasht_bits_def word_and_le2)
qed

lemma mod_pow2_less: "k < 32 \<Longrightarrow> (h :: 32 word) mod 2 ^ k < 2 ^ k"
  by (rule word_mod_less_divisor) (simp add: word_gt_0)

lemma bucket_key_less_node_key:
  assumes "k < 32"
  shows "reverse_hasht_bits (h mod 2 ^ k) < sol_node_key h"
proof -
  have "h mod 2 ^ k = take_bit k h" by (simp add: take_bit_eq_mod)
  then have "\<not> bit (h mod 2 ^ k) 31" using assms by (simp add: bit_take_bit_iff)
  then have even: "\<not> bit (reverse_hasht_bits (h mod 2 ^ k)) 0"
    by (simp add: reverse_hasht_bits_def bit_word_reverse_iff)
  have odd: "bit (sol_node_key h) 0"
    by (simp add: sol_node_key_def DATABIT_def bit_or_iff)
  have "reverse_hasht_bits (h mod 2 ^ k) \<le> reverse_hasht_bits h"
    using assms by (rule reverse_mod_le)
  also have "\<dots> \<le> sol_node_key h"
    by (simp add: sol_node_key_def le_word_or2)
  finally have "reverse_hasht_bits (h mod 2 ^ k) \<le> sol_node_key h" .
  moreover have "reverse_hasht_bits (h mod 2 ^ k) \<noteq> sol_node_key h"
    using even odd by auto
  ultimately show ?thesis by simp
qed

lemma sorted_insert_at:
  assumes "sorted_wrt (<) ks" "i < length ks" "ks ! i < (k :: so_key)"
    "Suc i < length ks \<Longrightarrow> k < ks ! Suc i"
  shows "sorted_wrt (<) (take (Suc i) ks @ k # drop (Suc i) ks)"
proof -
  have "\<forall>x\<in>set (take (Suc i) ks). x < k"
  proof
    fix x assume "x \<in> set (take (Suc i) ks)"
    then obtain j where j: "j \<le> i" "x = ks ! j" using assms(2)
      by (auto simp: in_set_conv_nth less_Suc_eq_le)
    then have "ks ! j \<le> ks ! i"
    proof (cases "j = i")
      case False
      with j have "j < i" by simp
      with assms(1,2) have "ks ! j < ks ! i" by (simp add: sorted_wrt_iff_nth_less)
      then show ?thesis by simp
    qed simp
    with j assms(3) show "x < k" by simp
  qed
  moreover have "\<forall>y\<in>set (drop (Suc i) ks). k < y"
  proof
    fix y assume "y \<in> set (drop (Suc i) ks)"
    then obtain j where j: "Suc i \<le> j" "j < length ks" "y = ks ! j"
      by (auto simp: in_set_conv_nth) (metis add.commute le_add2 less_diff_conv add_Suc_right)
    then have "ks ! Suc i \<le> ks ! j"
    proof (cases "j = Suc i")
      case False
      with j have "Suc i < j" by simp
      with assms(1) j have "ks ! Suc i < ks ! j" by (simp add: sorted_wrt_iff_nth_less)
      then show ?thesis by simp
    qed simp
    with j assms(4) show "k < y" by auto
  qed
  moreover have "sorted_wrt (<) (take (Suc i) ks)" "sorted_wrt (<) (drop (Suc i) ks)"
    using assms(1) by simp_all
  ultimately show ?thesis
    by (auto simp: sorted_wrt_append intro: less_trans)
qed

lemma sorted_remove_at:
  assumes "sorted_wrt (<) (ks :: so_key list)"
  shows "sorted_wrt (<) (take i ks @ drop (Suc i) ks)"
proof -
  have "ks = take i ks @ drop i ks" by simp
  with assms have "sorted_wrt (<) (take i ks @ drop i ks)" by simp
  then have "sorted_wrt (<) (take i ks)" "sorted_wrt (<) (drop i ks)"
    "\<forall>x\<in>set (take i ks). \<forall>y\<in>set (drop i ks). x < y"
    by (auto simp only: sorted_wrt_append)
  moreover have "set (drop (Suc i) ks) \<subseteq> set (drop i ks)"
    by (simp add: set_drop_subset_set_drop)
  moreover have "sorted_wrt (<) (drop (Suc i) ks)" using assms by (rule sorted_wrt_drop)
  ultimately show ?thesis by (auto simp: sorted_wrt_append)
qed

section \<open>Changes of a chain\<close>

lemma sol_inv_chain_ok: "sol_inv s as \<Longrightarrow> chain_ok (heap s) (buckets s ! 0) as"
  by (simp add: sol_inv_def chain_ok_def)

lemma chain_ok_frame:
  assumes "chain_ok h p as" "\<And>a. a \<in> set as \<Longrightarrow> h' a = h a"
  shows "chain_ok h' p as"
proof -
  have ch: "lseg h p as None" using assms(1) by (simp add: chain_ok_def)
  have "lseg h' p as None"
    using ch
  proof (rule lseg_frame_sub)
    fix a assume a: "a \<in> set as"
    from lseg_allocated [OF ch a] assms(2) [OF a]
    show "h' a \<noteq> None \<and> next_at h' a = next_at h a" by (simp add: next_at_def)
  qed
  moreover have km: "map (key_at h') as = map (key_at h) as"
    using assms(2) by (auto simp: key_at_def)
  have "sorted_wrt (<) (map (key_at h') as)"
    unfolding km using assms(1) by (simp add: chain_ok_def)
  moreover have "\<forall>a\<in>set as. \<not> marked_at h' a"
    using assms by (auto simp: marked_at_def chain_ok_def)
  moreover have "as \<noteq> []" using assms(1) by (simp add: chain_ok_def)
  ultimately show ?thesis by (simp add: chain_ok_def)
qed

lemma chain_ok_link:
  assumes ok: "chain_ok h p as" and i: "i < length as" and d: "d \<notin> set as"
    and hd: "h d = Some dn" and hc: "h (as ! i) = Some c"
    and k1: "key c < key dn" and k2: "Suc i < length as \<Longrightarrow> key dn < key_at h (as ! Suc i)"
    and h': "h' = h(d \<mapsto> dn\<lparr>nextp := unmarked (next_at h (as ! i))\<rparr>,
                   as ! i \<mapsto> c\<lparr>nextp := unmarked (Some d)\<rparr>)"
  shows "chain_ok h' p (take (Suc i) as @ d # drop (Suc i) as)"
proof -
  have ch: "lseg h p as None" and srt: "sorted_wrt (<) (map (key_at h) as)"
    and um: "\<forall>a\<in>set as. \<not> marked_at h a" using ok by (auto simp: chain_ok_def)
  have ne: "d \<noteq> as ! i" using d i by auto
  have other: "h' a = h a" if "a \<in> set as" "a \<noteq> as ! i" for a
    using that d by (auto simp: h')
  have l: "lseg h' p (take (Suc i) as @ d # drop (Suc i) as) None"
    using ch i d
  proof (rule lseg_insert)
    show "h' d \<noteq> None" "next_at h' d = next_at h (as ! i)"
      using ne by (simp_all add: h' next_at_def unmarked_def)
    show "h' (as ! i) \<noteq> None" "next_at h' (as ! i) = Some d"
      by (simp_all add: h' next_at_def unmarked_def)
    show "h' a \<noteq> None \<and> next_at h' a = next_at h a" if "a \<in> set as" "a \<noteq> as ! i" for a
      using other [OF that] lseg_allocated [OF ch that(1)] by (simp add: next_at_def)
  qed
  have keys: "key_at h' a = key_at h a" if "a \<in> set as" for a
    using that d hc by (cases "a = as ! i") (auto simp: h' key_at_def)
  have kd: "key_at h' d = key dn" using ne by (simp add: h' key_at_def)
  have "map (key_at h') (take (Suc i) as) = map (key_at h) (take (Suc i) as)"
    "map (key_at h') (drop (Suc i) as) = map (key_at h) (drop (Suc i) as)"
    using keys by (auto dest: in_set_takeD in_set_dropD)
  then have "map (key_at h') (take (Suc i) as @ d # drop (Suc i) as)
      = take (Suc i) (map (key_at h) as) @ key dn # drop (Suc i) (map (key_at h) as)"
    using kd by (simp add: take_map drop_map)
  moreover have "sorted_wrt (<) (take (Suc i) (map (key_at h) as) @ key dn # drop (Suc i) (map (key_at h) as))"
    using srt i k1 k2 hc by (intro sorted_insert_at) (auto simp: key_at_def)
  ultimately have s: "sorted_wrt (<) (map (key_at h') (take (Suc i) as @ d # drop (Suc i) as))"
    by simp
  have m: "\<forall>a\<in>set (take (Suc i) as @ d # drop (Suc i) as). \<not> marked_at h' a"
  proof
    fix a assume "a \<in> set (take (Suc i) as @ d # drop (Suc i) as)"
    then have "a = d \<or> a \<in> set as" by (auto dest: in_set_takeD in_set_dropD)
    then show "\<not> marked_at h' a"
      using um ne by (cases "a = as ! i"; cases "a = d") (auto simp: h' marked_at_def unmarked_def)
  qed
  from l s m show ?thesis by (simp add: chain_ok_def)
qed

lemma chain_ok_unlink:
  assumes ok: "chain_ok h p as" and i: "0 < i" "i < length as"
    and hp: "h (as ! (i - 1)) = Some pn"
    and h': "h' = (h(as ! (i - 1) \<mapsto> pn\<lparr>nextp := unmarked (next_at h (as ! i))\<rparr>))(as ! i := None)"
  shows "chain_ok h' p (take i as @ drop (Suc i) as)"
proof -
  have ch: "lseg h p as None" and srt: "sorted_wrt (<) (map (key_at h) as)"
    and um: "\<forall>a\<in>set as. \<not> marked_at h a" using ok by (auto simp: chain_ok_def)
  have dist: "distinct as" using ch by (rule lseg_distinct)
  have ne: "as ! (i - 1) \<noteq> as ! i" using dist i by (simp add: nth_eq_iff_index_eq)
  have notin: "as ! i \<notin> set (take i as @ drop (Suc i) as)"
    using dist i by (auto simp: in_set_conv_nth nth_eq_iff_index_eq)
  have other: "h' a = h a" if "a \<noteq> as ! (i - 1)" "a \<noteq> as ! i" for a
    using that by (simp add: h')
  have l: "lseg h' p (take i as @ drop (Suc i) as) None"
    using ch i
  proof (rule lseg_remove)
    show "h' (as ! (i - 1)) \<noteq> None" "next_at h' (as ! (i - 1)) = next_at h (as ! i)"
      using ne by (simp_all add: h' next_at_def unmarked_def)
    show "h' a \<noteq> None \<and> next_at h' a = next_at h a"
      if "a \<in> set as" "a \<noteq> as ! (i - 1)" "a \<noteq> as ! i" for a
      using other [OF that(2,3)] lseg_allocated [OF ch that(1)] by (simp add: next_at_def)
  qed
  have sub: "set (take i as @ drop (Suc i) as) \<subseteq> set as"
    by (auto dest: in_set_takeD in_set_dropD)
  have keys: "key_at h' a = key_at h a" if "a \<in> set (take i as @ drop (Suc i) as)" for a
    using that notin hp by (cases "a = as ! (i - 1)") (auto simp: h' key_at_def)
  have "map (key_at h') (take i as) = map (key_at h) (take i as)"
    "map (key_at h') (drop (Suc i) as) = map (key_at h) (drop (Suc i) as)"
    using keys by auto
  then have "map (key_at h') (take i as @ drop (Suc i) as)
      = take i (map (key_at h) as) @ drop (Suc i) (map (key_at h) as)"
    by (simp add: take_map drop_map)
  then have s: "sorted_wrt (<) (map (key_at h') (take i as @ drop (Suc i) as))"
    using sorted_remove_at [OF srt, of i] by simp
  have m: "\<forall>a\<in>set (take i as @ drop (Suc i) as). \<not> marked_at h' a"
  proof
    fix a assume a: "a \<in> set (take i as @ drop (Suc i) as)"
    with notin have "a \<noteq> as ! i" by auto
    moreover from a sub have "a \<in> set as" by auto
    ultimately show "\<not> marked_at h' a"
      using um by (cases "a = as ! (i - 1)") (auto simp: h' marked_at_def unmarked_def)
  qed
  have "take i as \<noteq> []" using i by auto
  with l s m show ?thesis by (simp add: chain_ok_def)
qed

end
